theory Spec2Isabelle
  imports Complex_Main
begin

section \<open>Data model\<close>

text \<open>
  A two-dimensional numpy array: its shape and its rows. The shape is kept apart from the
  rows so that both empty shapes, \<open>(0, m)\<close> and \<open>(n, 0)\<close>, are values of the type.
\<close>

record 'a ndarray =
  shape0 :: nat
  shape1 :: nat
  rows :: "'a list list"

definition wf_ndarray :: "'a ndarray \<Rightarrow> bool" where
  "wf_ndarray a =
     (length (rows a) = shape0 a \<and> list_all (\<lambda>r. length r = shape1 a) (rows a))"

text \<open>
  Every \<open>raise\<close> of the modelled functions, and every exception numpy raises on the paths
  they take, is one constructor. In Python all of them are \<open>ValueError\<close> but \<open>IndexError\<close>.
\<close>

datatype error =
    MatrixEmpty          \<comment> \<open>\<open>Matrix is empty!\<close>\<close>
  | OnlyZeros            \<comment> \<open>\<open>Matrix only contains 0's\<close>\<close>
  | KTooLarge nat        \<comment> \<open>\<open>k should be smaller than n\<close>\<close>
  | InvalidP             \<comment> \<open>\<open>Invalid p\<close>\<close>
  | ArgmaxEmpty          \<comment> \<open>numpy: argmax of an empty sequence\<close>
  | ThresholdRange       \<comment> \<open>\<open>Threshold should be a value between 0 and 1.\<close>\<close>
  | IndexError
  | BroadcastError
  | ReshapeError

text \<open>
  The exponent \<open>p\<close> as the source inspects it: an integer, the string \<open>min\<close>, the string
  \<open>max\<close>, or anything else.
\<close>

datatype exponent = PInt int | PMin | PMax | POther

text \<open>
  \<open>min_markers\<close> as the command line produces it: a Python \<open>float\<close> or a Python \<open>int\<close>.
  Its floating-point value is the real number it denotes.
\<close>

datatype pynum = PyInt int | PyFloat real

section \<open>Floating-point arithmetic\<close>

text \<open>
  A double is modelled by the real number it denotes, and every floating-point addition or
  multiplication of the source by the exact operation followed by the rounding \<open>rnd\<close> of
  the result to a double, a parameter of the model. Comparisons of doubles are exact. Exact
  arithmetic is the instance where \<open>rnd\<close> is the identity. Integers are converted to doubles
  without change, as every count below \<open>2^53\<close> is; results beyond the finite doubles are not
  modelled.

  What the proofs use of the rounding is collected here: it is monotone, it leaves the result
  of a rounding (a double) unchanged, and zero is a double.
\<close>

definition rounding :: "(real \<Rightarrow> real) \<Rightarrow> bool" where
  "rounding rnd = (mono rnd \<and> (\<forall>x. rnd (rnd x) = rnd x) \<and> rnd 0 = 0)"

section \<open>numpy operations used by the source\<close>

text \<open>\<open>a.min()\<close> and \<open>a.max()\<close> of a one-dimensional array (of positive length).\<close>

fun amin :: "real list \<Rightarrow> real" where
  "amin [] = 0"
| "amin (x # xs) = fold min xs x"

fun amax :: "real list \<Rightarrow> real" where
  "amax [] = 0"
| "amax (x # xs) = fold max xs x"

text \<open>
  \<open>a.argmax()\<close>: a left-to-right scan that replaces the current best only by a strictly
  larger value, so the first occurrence of the maximum is returned; it raises on an empty
  array.
\<close>

fun argmax_scan :: "real \<Rightarrow> nat \<Rightarrow> nat \<Rightarrow> real list \<Rightarrow> nat" where
  "argmax_scan best bi i [] = bi"
| "argmax_scan best bi i (x # xs) =
     (if best < x then argmax_scan x i (Suc i) xs else argmax_scan best bi (Suc i) xs)"

definition argmax :: "real list \<Rightarrow> error + nat" where
  "argmax xs = (case xs of [] \<Rightarrow> Inl ArgmaxEmpty | x # ys \<Rightarrow> Inr (argmax_scan x 0 1 ys))"

text \<open>\<open>np.delete(a, i)\<close> and \<open>np.delete(a, i, axis = 0)\<close> for an index in range.\<close>

definition delete_at :: "nat \<Rightarrow> 'a list \<Rightarrow> 'a list" where
  "delete_at i xs = take i xs @ drop (Suc i) xs"

text \<open>
  \<open>counts + data\<close>: the vector is broadcast against every row of the matrix, and every sum
  is rounded to a double.
\<close>

definition add_rows ::
  "(real \<Rightarrow> real) \<Rightarrow> real list \<Rightarrow> real list list \<Rightarrow> real list list" where
  "add_rows rnd cs d = map (\<lambda>row. map2 (\<lambda>c x. rnd (c + x)) cs row) d"

section \<open>The greedy selector\<close>

text \<open>The variables the loop of \<open>greedy_power_mean_sample_final\<close> updates.\<close>

record loop_state =
  counts :: "real list"
  data :: "real list list"
  indices :: "nat list"
  selected :: "nat list"

text \<open>
  The scores of all remaining rows. \<open>scipy.stats.pmean\<close> is a library function, taken as
  the parameter \<open>pm\<close> (the row, then the exponent).
\<close>

definition row_scores ::
  "(real list \<Rightarrow> int \<Rightarrow> real) \<Rightarrow> exponent \<Rightarrow> real list list \<Rightarrow> error + real list" where
  "row_scores pm p sums' =
     (case p of
        PInt q \<Rightarrow> Inr (map (\<lambda>r. pm r q) sums')
      | PMin \<Rightarrow> Inr (map amin sums')
      | PMax \<Rightarrow> Inr (map amax sums')
      | POther \<Rightarrow> Inl InvalidP)"

text \<open>One iteration of the loop body.\<close>

definition greedy_step ::
  "(real \<Rightarrow> real) \<Rightarrow> (real list \<Rightarrow> int \<Rightarrow> real) \<Rightarrow> exponent \<Rightarrow> loop_state \<Rightarrow>
     error + loop_state" where
  "greedy_step rnd pm p s =
     (let sums' = add_rows rnd (counts s) (data s) in
      case row_scores pm p sums' of
        Inl e \<Rightarrow> Inl e
      | Inr sc \<Rightarrow>
          (case argmax sc of
             Inl e \<Rightarrow> Inl e
           | Inr choice \<Rightarrow>
               Inr \<lparr> counts = sums' ! choice,
                     data = delete_at choice (data s),
                     indices = delete_at choice (indices s),
                     selected = selected s @ [indices s ! choice] \<rparr>))"

text \<open>
  \<open>for i in range(k)\<close>: the body runs a fixed number of times, unless it raises. The
  progress bar around the loop does not touch these variables and is left out.
\<close>

fun greedy_loop ::
  "(real \<Rightarrow> real) \<Rightarrow> (real list \<Rightarrow> int \<Rightarrow> real) \<Rightarrow> exponent \<Rightarrow> nat \<Rightarrow> loop_state \<Rightarrow>
     error + loop_state" where
  "greedy_loop rnd pm p 0 s = Inr s"
| "greedy_loop rnd pm p (Suc i) s =
     (case greedy_step rnd pm p s of
        Inl e \<Rightarrow> Inl e
      | Inr s' \<Rightarrow> greedy_loop rnd pm p i s')"

text \<open>The state before the first iteration: the pseudocount is added to every entry.\<close>

definition init_state :: "(real \<Rightarrow> real) \<Rightarrow> int ndarray \<Rightarrow> real \<Rightarrow> loop_state" where
  "init_state rnd M pseudocount =
     \<lparr> counts = replicate (shape1 M) 0,
       data = map (map (\<lambda>x. rnd (real_of_int x + pseudocount))) (rows M),
       indices = [0 ..< shape0 M],
       selected = [] \<rparr>"

definition all_zero :: "int ndarray \<Rightarrow> bool" where
  "all_zero M = list_all (list_all (\<lambda>x. x = 0)) (rows M)"

definition greedy_power_mean_sample_final ::
  "(real \<Rightarrow> real) \<Rightarrow> (real list \<Rightarrow> int \<Rightarrow> real) \<Rightarrow> int ndarray \<Rightarrow> int \<Rightarrow> exponent \<Rightarrow> real \<Rightarrow>
     error + nat list" where
  "greedy_power_mean_sample_final rnd pm M k p pseudocount =
     (if shape0 M = 0 \<or> shape1 M = 0 then Inl MatrixEmpty
      else if all_zero M then Inl OnlyZeros
      else if int (shape0 M) \<le> k then Inl (KTooLarge (shape0 M))
      else
        (case greedy_loop rnd pm p (nat k) (init_state rnd M pseudocount) of
           Inl e \<Rightarrow> Inl e
         | Inr s \<Rightarrow> Inr (selected s)))"


text \<open>
  The degenerate inputs of the selector: an empty matrix, a matrix of zeros, or a \<open>k\<close> that
  is not smaller than the number of rows.
\<close>

definition degenerate_input :: "int ndarray \<Rightarrow> int \<Rightarrow> bool" where
  "degenerate_input M k = (shape0 M = 0 \<or> shape1 M = 0 \<or> all_zero M \<or> int (shape0 M) \<le> k)"

text \<open>The example matrix of the specification: four gene rows, three genome columns.\<close>

definition example_matrix :: "int ndarray" where
  "example_matrix =
     \<lparr> shape0 = 4, shape1 = 3, rows = [[4, 0, 0], [0, 4, 0], [0, 0, 4], [1, 1, 1]] \<rparr>"

section \<open>The copy filter\<close>

text \<open>A row of the annotation table; the table is the list of its rows, in order.\<close>

record annotation =
  orf :: string
  bit_score :: real
  gene_family :: string
  genome :: string
  file_name :: string

definition same_group :: "annotation \<Rightarrow> annotation \<Rightarrow> bool" where
  "same_group r r' = (genome r' = genome r \<and> gene_family r' = gene_family r)"

text \<open>
  \<open>df.groupby(['genome', 'gene_family'])['bit_score'].transform('max')\<close>: for every row, the
  largest score among the rows of its group.
\<close>

definition max_scores :: "annotation list \<Rightarrow> real list" where
  "max_scores df = map (\<lambda>r. amax (map bit_score (filter (same_group r) df))) df"

text \<open>
  The scores are doubles; the product \<open>max_scores * threshold\<close> is rounded, the comparison
  with the score is exact.
\<close>

definition filter_copies ::
  "(real \<Rightarrow> real) \<Rightarrow> annotation list \<Rightarrow> real \<Rightarrow> error + annotation list" where
  "filter_copies rnd df threshold =
     (if \<not> (0 \<le> threshold \<and> threshold \<le> 1) then Inl ThresholdRange
      else Inr (map fst (filter (\<lambda>(r, mx). rnd (mx * threshold) \<le> bit_score r)
                           (zip df (max_scores df)))))"

section \<open>The matrix builder\<close>

text \<open>\<open>np.unique(a, return_inverse = True)\<close>: the sorted distinct values, and for every
  element of the input its position among them.\<close>

definition unique :: "'a::linorder list \<Rightarrow> 'a list" where
  "unique xs = sort (remdups xs)"

fun index_of :: "'a list \<Rightarrow> 'a \<Rightarrow> nat" where
  "index_of [] x = 0"
| "index_of (y # ys) x = (if x = y then 0 else Suc (index_of ys x))"

definition unique_inverse :: "'a::linorder list \<Rightarrow> 'a list \<times> nat list" where
  "unique_inverse xs = (let u = unique xs in (u, map (index_of u) xs))"

text \<open>
  \<open>a + b\<close> on one-dimensional arrays: element by element when the lengths agree, an array of
  length one is broadcast, other shapes raise.
\<close>

definition broadcast_add :: "nat list \<Rightarrow> nat list \<Rightarrow> error + nat list" where
  "broadcast_add xs ys =
     (if length xs = length ys then Inr (map2 (+) xs ys)
      else if length xs = 1 then Inr (map (\<lambda>y. hd xs + y) ys)
      else if length ys = 1 then Inr (map (\<lambda>x. x + hd ys) xs)
      else Inl BroadcastError)"

text \<open>\<open>np.bincount(x, minlength = n)\<close>: one bin for every value up to the largest, and at
  least \<open>n\<close> bins.\<close>

definition bincount :: "nat list \<Rightarrow> nat \<Rightarrow> int list" where
  "bincount xs minlength =
     map (\<lambda>b. int (count_list xs b))
       [0 ..< max minlength (case xs of [] \<Rightarrow> 0 | x # ys \<Rightarrow> Suc (fold max ys x))]"

text \<open>\<open>a.reshape(r, c)\<close> of a one-dimensional array, in row-major order.\<close>

definition reshape :: "'a list \<Rightarrow> nat \<Rightarrow> nat \<Rightarrow> error + 'a ndarray" where
  "reshape xs r c =
     (if length xs = r * c
      then Inr \<lparr> shape0 = r, shape1 = c, rows = map (\<lambda>i. take c (drop (i * c) xs)) [0 ..< r] \<rparr>
      else Inl ReshapeError)"

definition build_copy_number_matrix ::
  "'a::linorder list \<Rightarrow> 'b::linorder list \<Rightarrow> error + (int ndarray \<times> 'b list \<times> 'a list)" where
  "build_copy_number_matrix edges_genes edges_genomes =
     (let (genes, genes_indices) = unique_inverse edges_genes;
          (genomes, genomes_indices) = unique_inverse edges_genomes
      in case broadcast_add (map (\<lambda>i. i * length genomes) genes_indices) genomes_indices of
           Inl e \<Rightarrow> Inl e
         | Inr flat \<Rightarrow>
             (case reshape (bincount flat (length genes * length genomes))
                     (length genes) (length genomes) of
                Inl e \<Rightarrow> Inl e
              | Inr adj \<Rightarrow> Inr (adj, genomes, genes)))"

section \<open>The coverage filter\<close>

text \<open>
  \<open>adj[markers_index]\<close> for an array of non-negative integer indices, as the selector
  returns them: the rows at the given indices; an index out of range raises.
\<close>

definition take_rows :: "'a ndarray \<Rightarrow> nat list \<Rightarrow> error + 'a list list" where
  "take_rows a idx =
     (if list_all (\<lambda>i. i < shape0 a) idx then Inr (map (\<lambda>i. rows a ! i) idx)
      else Inl IndexError)"

text \<open>\<open>a.sum(axis = 0)\<close> of an array with \<open>m\<close> columns: the column totals.\<close>

definition sum_axis0 :: "nat \<Rightarrow> int list list \<Rightarrow> int list" where
  "sum_axis0 m rs = foldr (map2 (+)) rs (replicate m 0)"

text \<open>\<open>a[mask]\<close> with a boolean mask, which must have the length of \<open>a\<close>.\<close>

definition mask_select :: "'a list \<Rightarrow> bool list \<Rightarrow> error + 'a list" where
  "mask_select xs keep =
     (if length keep = length xs then Inr (map fst (filter snd (zip xs keep)))
      else Inl IndexError)"

text \<open>
  The product \<open>min_markers * k\<close> of a float and an integer is a double, the rounded
  product; the integer totals are compared with the threshold by their value.
\<close>

definition get_genomes_to_keep ::
  "(real \<Rightarrow> real) \<Rightarrow> int ndarray \<Rightarrow> int \<Rightarrow> nat list \<Rightarrow> pynum \<Rightarrow> 'g list \<Rightarrow> error + 'g list" where
  "get_genomes_to_keep rnd adj k markers_index min_markers genomes =
     (let threshold =
            (case min_markers of
               PyFloat f \<Rightarrow> if 0 \<le> f \<and> f \<le> 1 then rnd (f * real_of_int k) else f
             | PyInt i \<Rightarrow> real_of_int i)
      in case take_rows adj markers_index of
           Inl e \<Rightarrow> Inl e
         | Inr sel \<Rightarrow>
             mask_select genomes
               (map (\<lambda>t. threshold \<le> real_of_int t) (sum_axis0 (shape1 adj) sel)))"

text \<open>The total of the selected rows in one genome column.\<close>

definition marker_total :: "int ndarray \<Rightarrow> nat list \<Rightarrow> nat \<Rightarrow> int" where
  "marker_total adj markers_index j = (\<Sum>i\<leftarrow>markers_index. rows adj ! i ! j)"

section \<open>The loop invariant of the greedy selector\<close>

text \<open>The working matrix: the input with the pseudocount added to every entry.\<close>

definition aug_matrix :: "(real \<Rightarrow> real) \<Rightarrow> int ndarray \<Rightarrow> real \<Rightarrow> real list list" where
  "aug_matrix rnd M pseudocount = map (map (\<lambda>x. rnd (real_of_int x + pseudocount))) (rows M)"

text \<open>
  What every iteration preserves: the working array holds, in ascending order of their
  original index, exactly the rows not yet selected.
\<close>

definition loop_inv :: "nat \<Rightarrow> nat \<Rightarrow> real list list \<Rightarrow> loop_state \<Rightarrow> bool" where
  "loop_inv n m aug s =
     (length (counts s) = m \<and> data s = map ((!) aug) (indices s) \<and>
      sorted_wrt (<) (indices s) \<and> set (indices s) = {0..<n} - set (selected s) \<and>
      set (selected s) \<subseteq> {0..<n} \<and> distinct (selected s) \<and>
      length (selected s) + length (indices s) = n)"

text \<open>
  The score of one candidate row against the cumulative counts, as one number: what
  \<open>row_scores\<close> computes for that row when the exponent is valid.
\<close>

definition trial_score ::
  "(real \<Rightarrow> real) \<Rightarrow> (real list \<Rightarrow> int \<Rightarrow> real) \<Rightarrow> exponent \<Rightarrow> real list \<Rightarrow> real list \<Rightarrow> real" where
  "trial_score rnd pm p cs row =
     (case p of
        PInt q \<Rightarrow> pm (map2 (\<lambda>c x. rnd (c + x)) cs row) q
      | PMin \<Rightarrow> amin (map2 (\<lambda>c x. rnd (c + x)) cs row)
      | PMax \<Rightarrow> amax (map2 (\<lambda>c x. rnd (c + x)) cs row)
      | POther \<Rightarrow> 0)"

text \<open>
  The states of the loop on the example matrix with \<open>p = min\<close> and pseudocount \<open>0.1\<close>, after
  one, two and three iterations.
\<close>

definition example_state1 :: loop_state where
  "example_state1 =
     \<lparr> counts = [11 / 10, 11 / 10, 11 / 10],
       data = [[41 / 10, 1 / 10, 1 / 10], [1 / 10, 41 / 10, 1 / 10], [1 / 10, 1 / 10, 41 / 10]],
       indices = [0, 1, 2],
       selected = [3] \<rparr>"

definition example_state2 :: loop_state where
  "example_state2 =
     \<lparr> counts = [52 / 10, 12 / 10, 12 / 10],
       data = [[1 / 10, 41 / 10, 1 / 10], [1 / 10, 1 / 10, 41 / 10]],
       indices = [1, 2],
       selected = [3, 0] \<rparr>"

definition example_state3 :: loop_state where
  "example_state3 =
     \<lparr> counts = [53 / 10, 53 / 10, 13 / 10],
       data = [[1 / 10, 1 / 10, 41 / 10]],
       indices = [2],
       selected = [3, 0, 1] \<rparr>"

text \<open>A matrix on which the selection depends on the rounding of the sums.\<close>

definition tie_matrix :: "int ndarray" where
  "tie_matrix = \<lparr> shape0 = 4, shape1 = 2, rows = [[0, 0], [0, 1], [1, 0], [2, 0]] \<rparr>"

text \<open>The value of a Python number.\<close>

fun pynum_value :: "pynum \<Rightarrow> real" where
  "pynum_value (PyInt i) = real_of_int i"
| "pynum_value (PyFloat f) = f"

text \<open>
  Example data: an annotation row of the group \<open>(G1, K00001)\<close>, and a matrix whose three rows
  have the column totals \<open>[5, 3, 1]\<close>.
\<close>

definition example_hit :: "string \<Rightarrow> real \<Rightarrow> annotation" where
  "example_hit name score =
     \<lparr> orf = name, bit_score = score, gene_family = ''K00001'', genome = ''G1'',
       file_name = ''a.tsv'' \<rparr>"

definition example_coverage :: "int ndarray" where
  "example_coverage = \<lparr> shape0 = 3, shape1 = 3, rows = [[2, 1, 0], [2, 1, 0], [1, 1, 1]] \<rparr>"

section \<open>Properties of the numpy operations\<close>


lemma argmax_scan_props:
  assumes "i = length pre" "bi < i" "best = (pre @ xs) ! bi"
    "\<forall>j<i. (pre @ xs) ! j \<le> best" "\<forall>j<bi. (pre @ xs) ! j < best"
  shows "argmax_scan best bi i xs < length (pre @ xs) \<and>
         (\<forall>j<length (pre @ xs). (pre @ xs) ! j \<le> (pre @ xs) ! argmax_scan best bi i xs) \<and>
         (\<forall>j<argmax_scan best bi i xs. (pre @ xs) ! j < (pre @ xs) ! argmax_scan best bi i xs)"
  using assms
proof (induction xs arbitrary: pre best bi i)
  case Nil
  then show ?case by auto
next
  case (Cons x xs)
  let ?ys = "pre @ x # xs"
  have eq: "(pre @ [x]) @ xs = ?ys" by simp
  have xi: "?ys ! i = x" using Cons.prems(1) by simp
  show ?case
  proof (cases "best < x")
    case True
    have a: "\<forall>j<Suc i. ((pre @ [x]) @ xs) ! j \<le> x"
      using Cons.prems True xi by (auto simp: less_Suc_eq)
    have b: "\<forall>j<i. ((pre @ [x]) @ xs) ! j < x"
      using Cons.prems True by auto
    have "Suc i = length (pre @ [x])" using Cons.prems(1) by simp
    moreover have "i < Suc i" by simp
    moreover have "x = ((pre @ [x]) @ xs) ! i" using xi by simp
    ultimately show ?thesis
      using Cons.IH[of "Suc i" "pre @ [x]" i x] a b True unfolding eq by simp
  next
    case False
    have a: "\<forall>j<Suc i. ((pre @ [x]) @ xs) ! j \<le> best"
      using Cons.prems False xi by (auto simp: less_Suc_eq)
    have "Suc i = length (pre @ [x])" using Cons.prems(1) by simp
    moreover have "bi < Suc i" using Cons.prems(2) by simp
    moreover have "best = ((pre @ [x]) @ xs) ! bi" using Cons.prems(3) by simp
    moreover have "\<forall>j<bi. ((pre @ [x]) @ xs) ! j < best" using Cons.prems(5) by simp
    ultimately show ?thesis
      using Cons.IH[of "Suc i" "pre @ [x]" bi best] a False unfolding eq by simp
  qed
qed

lemma argmax_props:
  assumes "xs \<noteq> []"
  shows "\<exists>c. argmax xs = Inr c \<and> c < length xs \<and> (\<forall>j<length xs. xs ! j \<le> xs ! c) \<and>
             (\<forall>j<c. xs ! j < xs ! c)"
proof -
  obtain x ys where xs: "xs = x # ys" using assms by (cases xs) auto
  have "argmax_scan x 0 1 ys < length ([x] @ ys) \<and>
         (\<forall>j<length ([x] @ ys). ([x] @ ys) ! j \<le> ([x] @ ys) ! argmax_scan x 0 1 ys) \<and>
         (\<forall>j<argmax_scan x 0 1 ys. ([x] @ ys) ! j < ([x] @ ys) ! argmax_scan x 0 1 ys)"
    by (rule argmax_scan_props) auto
  then show ?thesis by (simp add: argmax_def xs)
qed


lemma delete_at_length: "c < length xs \<Longrightarrow> length (delete_at c xs) = length xs - 1"
  by (simp add: delete_at_def)

lemma delete_at_map: "map f (delete_at c xs) = delete_at c (map f xs)"
  by (simp add: delete_at_def take_map drop_map)

lemma delete_at_set:
  assumes "distinct xs" "c < length xs"
  shows "set (delete_at c xs) = set xs - {xs ! c}" "distinct (delete_at c xs)"
proof -
  have xs: "xs = take c xs @ (xs ! c) # drop (Suc c) xs"
    using assms(2) by (simp add: id_take_nth_drop)
  have d: "distinct (take c xs @ (xs ! c) # drop (Suc c) xs)" using assms(1) xs by simp
  have s: "set xs = set (take c xs) \<union> {xs ! c} \<union> set (drop (Suc c) xs)"
    by (subst xs) auto
  show "set (delete_at c xs) = set xs - {xs ! c}"
    using d unfolding delete_at_def by (subst s) auto
  show "distinct (delete_at c xs)" using d unfolding delete_at_def by auto
qed

lemma delete_at_sorted:
  assumes "sorted_wrt (<) (xs::nat list)"
  shows "sorted_wrt (<) (delete_at c xs)"
proof -
  have "sorted_wrt (<) (take c xs @ drop c xs)" using assms by simp
  then have a: "sorted_wrt (<) (take c xs)" and b: "\<forall>x\<in>set (take c xs). \<forall>y\<in>set (drop c xs). x < y"
    unfolding sorted_wrt_append by blast+
  have c: "sorted_wrt (<) (drop (Suc c) xs)" using assms by (rule sorted_wrt_drop)
  have "set (drop (Suc c) xs) \<subseteq> set (drop c xs)" by (rule set_drop_subset_set_drop) simp
  with b have "\<forall>x\<in>set (take c xs). \<forall>y\<in>set (drop (Suc c) xs). x < y" by blast
  with a c show ?thesis unfolding delete_at_def sorted_wrt_append by blast
qed


lemma row_scores_length: "row_scores pm p ss = Inr sc \<Longrightarrow> length sc = length ss"
  by (auto simp: row_scores_def split: exponent.splits)

lemma row_scores_valid: "p \<noteq> POther \<Longrightarrow> \<exists>sc. row_scores pm p ss = Inr sc"
  by (cases p) (auto simp: row_scores_def)

lemma greedy_step_inv:
  assumes inv: "loop_inv n m aug s"
    and aug: "length aug = n" "list_all (\<lambda>r. length r = m) aug"
    and ne: "indices s \<noteq> []"
    and sc: "row_scores pm p (add_rows rnd (counts s) (data s)) = Inr sc"
  shows "\<exists>c. c < length (indices s) \<and>
           (\<forall>j<length (indices s). sc ! j \<le> sc ! c) \<and> (\<forall>j<c. sc ! j < sc ! c) \<and>
           greedy_step rnd pm p s =
             Inr \<lparr> counts = map2 (\<lambda>c x. rnd (c + x)) (counts s) (aug ! (indices s ! c)),
                   data = delete_at c (data s), indices = delete_at c (indices s),
                   selected = selected s @ [indices s ! c] \<rparr> \<and>
           loop_inv n m aug
               \<lparr> counts = map2 (\<lambda>c x. rnd (c + x)) (counts s) (aug ! (indices s ! c)),
                   data = delete_at c (data s), indices = delete_at c (indices s),
                   selected = selected s @ [indices s ! c] \<rparr>"
proof -
  have len_data: "length (data s) = length (indices s)" using inv by (simp add: loop_inv_def)
  have len_sc: "length sc = length (indices s)"
    using row_scores_length[OF sc] len_data by (simp add: add_rows_def)
  then have "sc \<noteq> []" using ne by auto
  from argmax_props[OF this] obtain c where c: "argmax sc = Inr c" "c < length sc"
    "\<forall>j<length sc. sc ! j \<le> sc ! c" "\<forall>j<c. sc ! j < sc ! c" by blast
  have cl: "c < length (indices s)" using c(2) len_sc by simp
  have dist: "distinct (indices s)" using inv
    by (simp add: loop_inv_def strict_sorted_iff)
  have ic: "indices s ! c \<in> {0..<n} - set (selected s)"
    using inv cl unfolding loop_inv_def by (metis nth_mem)
  have row: "data s ! c = aug ! (indices s ! c)" using inv cl by (simp add: loop_inv_def)
  have sums: "add_rows rnd (counts s) (data s) ! c = map2 (\<lambda>c x. rnd (c + x)) (counts s) (aug ! (indices s ! c))"
    using cl len_data row by (simp add: add_rows_def)
  have step: "greedy_step rnd pm p s =
             Inr \<lparr> counts = map2 (\<lambda>c x. rnd (c + x)) (counts s) (aug ! (indices s ! c)),
                   data = delete_at c (data s), indices = delete_at c (indices s),
                   selected = selected s @ [indices s ! c] \<rparr>"
    by (simp add: greedy_step_def Let_def sc c(1) sums)
  have rl: "length (aug ! (indices s ! c)) = m"
    using aug ic by (simp add: list_all_length)
  have i1: "length (map2 (\<lambda>c x. rnd (c + x)) (counts s) (aug ! (indices s ! c))) = m"
    using rl inv by (simp add: loop_inv_def)
  have i2: "delete_at c (data s) = map ((!) aug) (delete_at c (indices s))"
    using inv by (simp add: loop_inv_def delete_at_map)
  have i3: "sorted_wrt (<) (delete_at c (indices s))"
    using inv by (simp add: loop_inv_def delete_at_sorted)
  have i4: "set (delete_at c (indices s)) = {0..<n} - set (selected s @ [indices s ! c])"
    using delete_at_set(1)[OF dist cl] inv by (auto simp: loop_inv_def)
  have i5: "set (selected s @ [indices s ! c]) \<subseteq> {0..<n}"
    using inv ic by (auto simp: loop_inv_def)
  have i6: "distinct (selected s @ [indices s ! c])"
    using inv ic by (auto simp: loop_inv_def)
  have i7: "length (selected s @ [indices s ! c]) + length (delete_at c (indices s)) = n"
    using inv cl by (simp add: loop_inv_def delete_at_length)
  have "loop_inv n m aug
               \<lparr> counts = map2 (\<lambda>c x. rnd (c + x)) (counts s) (aug ! (indices s ! c)),
                   data = delete_at c (data s), indices = delete_at c (indices s),
                   selected = selected s @ [indices s ! c] \<rparr>"
    unfolding loop_inv_def using i1 i2 i3 i4 i5 i6 i7 by simp
  with cl c(3,4) len_sc step show ?thesis by auto
qed


lemma aug_matrix_shape:
  assumes "wf_ndarray M"
  shows "length (aug_matrix rnd M pc) = shape0 M"
    "list_all (\<lambda>r. length r = shape1 M) (aug_matrix rnd M pc)"
  using assms by (auto simp: wf_ndarray_def aug_matrix_def list_all_iff)

lemma init_state_inv:
  assumes "wf_ndarray M"
  shows "loop_inv (shape0 M) (shape1 M) (aug_matrix rnd M pc) (init_state rnd M pc)"
proof -
  have "map ((!) (aug_matrix rnd M pc)) [0..<shape0 M] = aug_matrix rnd M pc"
    using aug_matrix_shape(1)[OF assms, where pc = pc and rnd = rnd] map_nth[of "aug_matrix rnd M pc"] by simp
  then show ?thesis
    by (simp add: loop_inv_def init_state_def aug_matrix_def)
qed

lemma greedy_loop_total:
  assumes aug: "length aug = n" "list_all (\<lambda>r. length r = m) aug" and p: "p \<noteq> POther"
  shows "loop_inv n m aug s \<Longrightarrow> i \<le> length (indices s) \<Longrightarrow>
         \<exists>s'. greedy_loop rnd pm p i s = Inr s' \<and> loop_inv n m aug s' \<and>
              length (selected s') = length (selected s) + i"
proof (induction i arbitrary: s)
  case 0
  then show ?case by simp
next
  case (Suc i)
  from Suc.prems(2) have ne: "indices s \<noteq> []" by auto
  from row_scores_valid[OF p] obtain sc
    where sc: "row_scores pm p (add_rows rnd (counts s) (data s)) = Inr sc" by blast
  from greedy_step_inv[OF Suc.prems(1) aug ne sc] obtain c t where
    c: "c < length (indices s)" and st: "greedy_step rnd pm p s = Inr t" and
    t: "t = \<lparr> counts = map2 (\<lambda>c x. rnd (c + x)) (counts s) (aug ! (indices s ! c)),
                   data = delete_at c (data s), indices = delete_at c (indices s),
                   selected = selected s @ [indices s ! c] \<rparr>" and
    inv: "loop_inv n m aug t" by blast
  have "i \<le> length (indices t)" using Suc.prems(2) c by (simp add: t delete_at_length)
  from Suc.IH[OF inv this] obtain s' where
    "greedy_loop rnd pm p i t = Inr s'" "loop_inv n m aug s'"
    "length (selected s') = length (selected t) + i" by blast
  then show ?case using st by (simp add: t)
qed

lemma greedy_step_error: "greedy_step rnd pm p s = Inl e \<Longrightarrow> e = InvalidP \<or> e = ArgmaxEmpty"
  by (auto simp: greedy_step_def Let_def row_scores_def argmax_def
      split: sum.splits exponent.splits list.splits)

lemma greedy_loop_error: "greedy_loop rnd pm p i s = Inl e \<Longrightarrow> e = InvalidP \<or> e = ArgmaxEmpty"
proof (induction i arbitrary: s)
  case 0
  then show ?case by simp
next
  case (Suc i)
  then show ?case
    by (cases "greedy_step rnd pm p s") (auto dest: greedy_step_error)
qed

lemma greedy_run_ok:
  assumes wf: "wf_ndarray M" and nd: "\<not> degenerate_input M k" and p: "p \<noteq> POther"
  shows "\<exists>s. greedy_loop rnd pm p (nat k) (init_state rnd M pc) = Inr s \<and>
             loop_inv (shape0 M) (shape1 M) (aug_matrix rnd M pc) s \<and>
             length (selected s) = nat k"
proof -
  have k: "nat k \<le> length (indices (init_state rnd M pc))"
    using nd by (auto simp: degenerate_input_def init_state_def)
  from greedy_loop_total[OF aug_matrix_shape[OF wf] p init_state_inv[OF wf] k]
  show ?thesis by (simp add: init_state_def)
qed

lemma row_scores_trial:
  "row_scores pm p (add_rows rnd cs d) = Inr sc \<Longrightarrow> sc = map (trial_score rnd pm p cs) d"
  by (auto simp: row_scores_def add_rows_def trial_score_def split: exponent.splits)

lemma greedy_loop_snoc:
  "greedy_loop rnd pm p (Suc i) s =
     (case greedy_loop rnd pm p i s of Inl e \<Rightarrow> Inl e | Inr t \<Rightarrow> greedy_step rnd pm p t)"
proof (induction i arbitrary: s)
  case 0
  show ?case by (simp split: sum.splits)
next
  case (Suc i)
  show ?case
  proof (cases "greedy_step rnd pm p s")
    case (Inl e)
    then show ?thesis by simp
  next
    case (Inr t)
    have "greedy_loop rnd pm p (Suc (Suc i)) s = greedy_loop rnd pm p (Suc i) t"
      using Inr by simp
    also have "\<dots> = (case greedy_loop rnd pm p i t of Inl e \<Rightarrow> Inl e | Inr u \<Rightarrow> greedy_step rnd pm p u)"
      by (rule Suc.IH)
    also have "greedy_loop rnd pm p i t = greedy_loop rnd pm p (Suc i) s" using Inr by simp
    finally show ?thesis .
  qed
qed

lemma greedy_step_Inr:
  assumes inv: "loop_inv n m aug s"
    and aug: "length aug = n" "list_all (\<lambda>r. length r = m) aug"
    and st: "greedy_step rnd pm p s = Inr s'"
  shows "\<exists>c sc. row_scores pm p (add_rows rnd (counts s) (data s)) = Inr sc \<and>
           argmax sc = Inr c \<and> length sc = length (indices s) \<and> c < length (indices s) \<and>
           (\<forall>j<length (indices s). sc ! j \<le> sc ! c) \<and> (\<forall>j<c. sc ! j < sc ! c) \<and>
           s' = \<lparr> counts = map2 (\<lambda>c x. rnd (c + x)) (counts s) (aug ! (indices s ! c)),
                   data = delete_at c (data s), indices = delete_at c (indices s),
                   selected = selected s @ [indices s ! c] \<rparr> \<and>
           loop_inv n m aug s'"
proof -
  from st obtain sc where sc: "row_scores pm p (add_rows rnd (counts s) (data s)) = Inr sc"
    by (auto simp: greedy_step_def Let_def split: sum.splits)
  from st sc obtain c0 where c0: "argmax sc = Inr c0"
    by (auto simp: greedy_step_def Let_def split: sum.splits)
  then have "sc \<noteq> []" by (auto simp: argmax_def)
  have len_data: "length (data s) = length (indices s)" using inv by (simp add: loop_inv_def)
  have len_sc: "length sc = length (indices s)"
    using row_scores_length[OF sc] len_data by (simp add: add_rows_def)
  with \<open>sc \<noteq> []\<close> have ne: "indices s \<noteq> []" by auto
  from greedy_step_inv[OF inv aug ne sc] obtain c where
    c: "c < length (indices s)" "\<forall>j<length (indices s). sc ! j \<le> sc ! c" "\<forall>j<c. sc ! j < sc ! c"
    and eq: "greedy_step rnd pm p s =
             Inr \<lparr> counts = map2 (\<lambda>c x. rnd (c + x)) (counts s) (aug ! (indices s ! c)),
                   data = delete_at c (data s), indices = delete_at c (indices s),
                   selected = selected s @ [indices s ! c] \<rparr>"
    and inv': "loop_inv n m aug
               \<lparr> counts = map2 (\<lambda>c x. rnd (c + x)) (counts s) (aug ! (indices s ! c)),
                   data = delete_at c (data s), indices = delete_at c (indices s),
                   selected = selected s @ [indices s ! c] \<rparr>" by blast
  have s': "s' = \<lparr> counts = map2 (\<lambda>c x. rnd (c + x)) (counts s) (aug ! (indices s ! c)),
                   data = delete_at c (data s), indices = delete_at c (indices s),
                   selected = selected s @ [indices s ! c] \<rparr>" using st eq by simp
  have "indices s' = delete_at c (indices s)" using s' by simp
  moreover have "indices s' = delete_at c0 (indices s)"
    using st sc c0 by (auto simp: greedy_step_def Let_def)
  have "selected s' = selected s @ [indices s ! c0]"
    using st sc c0 by (auto simp: greedy_step_def Let_def)
  then have "indices s ! c0 = indices s ! c" using s' by simp
  moreover have "c0 < length (indices s)"
    using argmax_props[OF \<open>sc \<noteq> []\<close>] c0 len_sc by auto
  moreover have "distinct (indices s)" using inv by (simp add: loop_inv_def strict_sorted_iff)
  ultimately have "c0 = c" using c(1) by (simp add: nth_eq_iff_index_eq)
  with sc c0 len_sc c s' inv' show ?thesis by auto
qed

lemma greedy_loop_reach:
  assumes aug: "length aug = n" "list_all (\<lambda>r. length r = m) aug"
  shows "loop_inv n m aug s \<Longrightarrow> greedy_loop rnd pm p i s = Inr s' \<Longrightarrow> loop_inv n m aug s'"
proof (induction i arbitrary: s)
  case 0
  then show ?case by simp
next
  case (Suc i)
  from Suc.prems(2) obtain t where t: "greedy_step rnd pm p s = Inr t" "greedy_loop rnd pm p i t = Inr s'"
    by (auto split: sum.splits)
  from greedy_step_Inr[OF Suc.prems(1) aug t(1)] have "loop_inv n m aug t" by blast
  from Suc.IH[OF this t(2)] show ?case .
qed

lemma greedy_reach_inv:
  assumes "wf_ndarray M" "greedy_loop rnd pm p i (init_state rnd M pc) = Inr s"
  shows "loop_inv (shape0 M) (shape1 M) (aug_matrix rnd M pc) s"
  using greedy_loop_reach[OF aug_matrix_shape[OF assms(1)] init_state_inv[OF assms(1)] assms(2)] .

lemma example_matrix_ok:
  "wf_ndarray example_matrix" "shape0 example_matrix = 4" "shape1 example_matrix = 3"
  "\<not> all_zero example_matrix"
  by (simp_all add: example_matrix_def wf_ndarray_def all_zero_def)

section \<open>The run on the example matrix\<close>

lemmas example_eval =
  example_matrix_def init_state_def greedy_step_def add_rows_def row_scores_def argmax_def
  delete_at_def example_state1_def example_state2_def example_state3_def numeral_3_eq_3

lemma example_run1: "greedy_loop (\<lambda>x. x) pm PMin 1 (init_state (\<lambda>x. x) example_matrix (1 / 10)) = Inr example_state1"
  by (simp add: example_eval)

lemma example_step2: "greedy_step (\<lambda>x. x) pm PMin example_state1 = Inr example_state2"
  by (simp add: example_eval)

lemma example_step3: "greedy_step (\<lambda>x. x) pm PMin example_state2 = Inr example_state3"
  by (simp add: example_eval)

lemma example_run2: "greedy_loop (\<lambda>x. x) pm PMin 2 (init_state (\<lambda>x. x) example_matrix (1 / 10)) = Inr example_state2"
proof -
  have "greedy_loop (\<lambda>x. x) pm PMin (Suc 1) (init_state (\<lambda>x. x) example_matrix (1 / 10)) = Inr example_state2"
    unfolding greedy_loop_snoc example_run1 by (simp add: example_step2)
  then show ?thesis by (simp add: numeral_2_eq_2)
qed

lemma example_run3: "greedy_loop (\<lambda>x. x) pm PMin 3 (init_state (\<lambda>x. x) example_matrix (1 / 10)) = Inr example_state3"
proof -
  have "greedy_loop (\<lambda>x. x) pm PMin (Suc 2) (init_state (\<lambda>x. x) example_matrix (1 / 10)) = Inr example_state3"
    unfolding greedy_loop_snoc example_run2 by (simp add: example_step3)
  then show ?thesis by (simp add: numeral_3_eq_3 numeral_2_eq_2)
qed

section \<open>The selection: size, distinctness, range\<close>

text \<open>
  Claim C1. For a well-formed matrix with \<open>n > 0\<close> rows and \<open>m > 0\<close> columns that is not all
  zero, every \<open>k\<close> with \<open>1 \<le> k < n\<close> and every valid exponent (an integer, \<open>min\<close> or \<open>max\<close>),
  \<open>greedy_power_mean_sample_final\<close> returns without raising, and what it returns is a sequence
  of exactly \<open>k\<close> pairwise distinct row indices of the input matrix (each below \<open>n\<close>), whatever
  the pseudocount and whatever the power mean computes.
\<close>

theorem greedy_selects_k_distinct_rows:
  assumes "wf_ndarray M" and "0 < shape0 M" and "0 < shape1 M" and "\<not> all_zero M"
    and "1 \<le> k" and "k < int (shape0 M)" and "p \<noteq> POther"
  shows "\<exists>sel. greedy_power_mean_sample_final rnd pm M k p pseudocount = Inr sel \<and>
           length sel = nat k \<and> distinct sel \<and> list_all (\<lambda>g. g < shape0 M) sel"
proof -
  have nd: "\<not> degenerate_input M k" using assms by (simp add: degenerate_input_def)
  from greedy_run_ok[OF assms(1) nd assms(7)] obtain s where
    s: "greedy_loop rnd pm p (nat k) (init_state rnd M pseudocount) = Inr s"
    "loop_inv (shape0 M) (shape1 M) (aug_matrix rnd M pseudocount) s"
    "length (selected s) = nat k" by blast
  have "greedy_power_mean_sample_final rnd pm M k p pseudocount = Inr (selected s)"
    using assms s(1) by (simp add: greedy_power_mean_sample_final_def)
  moreover have "distinct (selected s)" "list_all (\<lambda>g. g < shape0 M) (selected s)"
    using s(2) by (auto simp: loop_inv_def list_all_iff)
  ultimately show ?thesis using s(3) by simp
qed

theorem greedy_selects_k_distinct_rows_witness:
  "wf_ndarray example_matrix \<and> 0 < shape0 example_matrix \<and> 0 < shape1 example_matrix \<and>
   \<not> all_zero example_matrix \<and> (1::int) \<le> 3 \<and> 3 < int (shape0 example_matrix) \<and>
   PMin \<noteq> POther \<and>
   (\<exists>sel. greedy_power_mean_sample_final (\<lambda>x. x) (\<lambda>r q. 0) example_matrix 3 PMin (1 / 10) = Inr sel \<and>
      length sel = 3 \<and> distinct sel \<and> list_all (\<lambda>g. g < 4) sel)"
proof -
  have h: "wf_ndarray example_matrix" "0 < shape0 example_matrix" "0 < shape1 example_matrix"
    "\<not> all_zero example_matrix" "(1::int) \<le> 3" "3 < int (shape0 example_matrix)"
    "PMin \<noteq> POther"
    by (simp_all add: example_matrix_ok)
  from greedy_selects_k_distinct_rows[OF h, where rnd = "\<lambda>x. x" and pm = "\<lambda>r q. 0" and pseudocount = "1 / 10"] h
  show ?thesis by (simp add: example_matrix_ok)
qed

section \<open>Nothing is selected for a non-positive k\<close>

text \<open>
  Claim C10. For a matrix with \<open>n > 0\<close> rows and \<open>m > 0\<close> columns that is not all zero and
  every \<open>k \<le> 0\<close>, \<open>greedy_power_mean_sample_final\<close> raises nothing and returns the empty
  selection: the test \<open>k \<ge> n\<close> does not fire, and the loop body runs zero times (so not even
  an invalid exponent is noticed).
\<close>

theorem greedy_nonpositive_k_empty:
  assumes "0 < shape0 M" and "0 < shape1 M" and "\<not> all_zero M" and "k \<le> 0"
  shows "greedy_power_mean_sample_final rnd pm M k p pseudocount = Inr []"
  using assms by (simp add: greedy_power_mean_sample_final_def init_state_def)

theorem greedy_nonpositive_k_empty_witness:
  "0 < shape0 example_matrix \<and> 0 < shape1 example_matrix \<and> \<not> all_zero example_matrix \<and>
   (0::int) \<le> 0 \<and> (-2::int) \<le> 0 \<and>
   greedy_power_mean_sample_final (\<lambda>x. x) (\<lambda>r q. 0) example_matrix 0 PMin (1 / 10) = Inr [] \<and>
   greedy_power_mean_sample_final (\<lambda>x. x) (\<lambda>r q. 0) example_matrix (-2) POther (1 / 10) = Inr []"
proof -
  have h: "0 < shape0 example_matrix" "0 < shape1 example_matrix" "\<not> all_zero example_matrix"
    by (simp_all add: example_matrix_ok)
  have a: "(0::int) \<le> 0" and b: "(-2::int) \<le> 0" by simp_all
  from greedy_nonpositive_k_empty[OF h a] greedy_nonpositive_k_empty[OF h b] h
  show ?thesis by simp
qed

section \<open>Degenerate inputs are rejected at entry\<close>

text \<open>
  Claim C3. \<open>greedy_power_mean_sample_final\<close> raises on a matrix with zero rows or zero
  columns, raises on a matrix of zeros, and raises when \<open>k \<ge> n\<close>; the result is then the
  error alone, not a selection, and it is the same for every pseudocount, exponent and power
  mean, since the checks precede the loop. One of these three errors is the result exactly
  when the input is degenerate; and for a well-formed matrix and a valid exponent the function
  raises an error at all exactly when the input is degenerate.
\<close>

theorem greedy_raises_iff_degenerate:
  fixes rnd M k pm p pseudocount
  defines "G \<equiv> greedy_power_mean_sample_final rnd pm M k p pseudocount"
  shows "(shape0 M = 0 \<or> shape1 M = 0 \<longrightarrow> G = Inl MatrixEmpty) \<and>
         (shape0 M \<noteq> 0 \<and> shape1 M \<noteq> 0 \<and> all_zero M \<longrightarrow> G = Inl OnlyZeros) \<and>
         (shape0 M \<noteq> 0 \<and> shape1 M \<noteq> 0 \<and> \<not> all_zero M \<and> int (shape0 M) \<le> k \<longrightarrow>
            G = Inl (KTooLarge (shape0 M))) \<and>
         ((G = Inl MatrixEmpty \<or> G = Inl OnlyZeros \<or> G = Inl (KTooLarge (shape0 M))) \<longleftrightarrow>
            degenerate_input M k) \<and>
         (wf_ndarray M \<and> p \<noteq> POther \<longrightarrow> ((\<exists>e. G = Inl e) \<longleftrightarrow> degenerate_input M k))"
proof -
  have a: "shape0 M = 0 \<or> shape1 M = 0 \<Longrightarrow> G = Inl MatrixEmpty"
    by (auto simp: G_def greedy_power_mean_sample_final_def)
  have b: "shape0 M \<noteq> 0 \<and> shape1 M \<noteq> 0 \<and> all_zero M \<Longrightarrow> G = Inl OnlyZeros"
    by (simp add: G_def greedy_power_mean_sample_final_def)
  have c: "shape0 M \<noteq> 0 \<and> shape1 M \<noteq> 0 \<and> \<not> all_zero M \<and> int (shape0 M) \<le> k \<Longrightarrow>
            G = Inl (KTooLarge (shape0 M))"
    by (simp add: G_def greedy_power_mean_sample_final_def)
  have d: "degenerate_input M k \<Longrightarrow>
     G = Inl MatrixEmpty \<or> G = Inl OnlyZeros \<or> G = Inl (KTooLarge (shape0 M))"
    using a b c unfolding degenerate_input_def by blast
  have e: "\<not> degenerate_input M k \<Longrightarrow>
     \<not> (G = Inl MatrixEmpty \<or> G = Inl OnlyZeros \<or> G = Inl (KTooLarge (shape0 M)))"
    unfolding G_def greedy_power_mean_sample_final_def degenerate_input_def
    by (auto split: sum.splits dest: greedy_loop_error)
  have f: "wf_ndarray M \<and> p \<noteq> POther \<Longrightarrow> \<not> degenerate_input M k \<Longrightarrow> \<not> (\<exists>e. G = Inl e)"
  proof -
    assume h: "wf_ndarray M \<and> p \<noteq> POther" and nd: "\<not> degenerate_input M k"
    from greedy_run_ok[where M = M and k = k and p = p and pm = pm and pc = pseudocount and rnd = rnd] h nd obtain s where
      "greedy_loop rnd pm p (nat k) (init_state rnd M pseudocount) = Inr s" by blast
    then show ?thesis using nd
      by (simp add: G_def greedy_power_mean_sample_final_def degenerate_input_def)
  qed
  show ?thesis using a b c d e f by blast
qed

theorem greedy_raises_iff_degenerate_witness:
  "greedy_power_mean_sample_final (\<lambda>x. x) (\<lambda>r q. 0) \<lparr> shape0 = 0, shape1 = 3, rows = [] \<rparr> 1 PMin (1 / 10)
     = Inl MatrixEmpty \<and>
   greedy_power_mean_sample_final (\<lambda>x. x) (\<lambda>r q. 0) \<lparr> shape0 = 2, shape1 = 0, rows = [[], []] \<rparr> 1 PMin (1 / 10)
     = Inl MatrixEmpty \<and>
   greedy_power_mean_sample_final (\<lambda>x. x) (\<lambda>r q. 0) \<lparr> shape0 = 2, shape1 = 2, rows = [[0, 0], [0, 0]] \<rparr> 1 PMin (1 / 10)
     = Inl OnlyZeros \<and>
   greedy_power_mean_sample_final (\<lambda>x. x) (\<lambda>r q. 0) example_matrix 4 PMin (1 / 10) = Inl (KTooLarge 4) \<and>
   \<not> degenerate_input example_matrix 3 \<and>
   (\<nexists>e. greedy_power_mean_sample_final (\<lambda>x. x) (\<lambda>r q. 0) example_matrix 3 PMin (1 / 10) = Inl e)"
proof -
  have a: "greedy_power_mean_sample_final (\<lambda>x. x) (\<lambda>r q. 0) \<lparr> shape0 = 0, shape1 = 3, rows = [] \<rparr> 1 PMin (1 / 10)
     = Inl MatrixEmpty"
    using greedy_raises_iff_degenerate[where rnd = "\<lambda>x. x" and M = "\<lparr> shape0 = 0, shape1 = 3, rows = [] \<rparr>" and pm = "\<lambda>r q. 0" and k = 1 and p = PMin and pseudocount = "1 / 10"]
    by simp
  have b: "greedy_power_mean_sample_final (\<lambda>x. x) (\<lambda>r q. 0) \<lparr> shape0 = 2, shape1 = 0, rows = [[], []] \<rparr> 1 PMin (1 / 10)
     = Inl MatrixEmpty"
    using greedy_raises_iff_degenerate[where rnd = "\<lambda>x. x" and M = "\<lparr> shape0 = 2, shape1 = 0, rows = [[], []] \<rparr>" and pm = "\<lambda>r q. 0" and k = 1 and p = PMin and pseudocount = "1 / 10"]
    by simp
  have c: "greedy_power_mean_sample_final (\<lambda>x. x) (\<lambda>r q. 0) \<lparr> shape0 = 2, shape1 = 2, rows = [[0, 0], [0, 0]] \<rparr> 1 PMin (1 / 10)
     = Inl OnlyZeros"
    using greedy_raises_iff_degenerate[where rnd = "\<lambda>x. x" and M = "\<lparr> shape0 = 2, shape1 = 2, rows = [[0, 0], [0, 0]] \<rparr>" and pm = "\<lambda>r q. 0" and k = 1 and p = PMin and pseudocount = "1 / 10"]
    by (simp add: all_zero_def)
  have d: "greedy_power_mean_sample_final (\<lambda>x. x) (\<lambda>r q. 0) example_matrix 4 PMin (1 / 10) = Inl (KTooLarge 4)"
    using greedy_raises_iff_degenerate[where rnd = "\<lambda>x. x" and M = example_matrix and pm = "\<lambda>r q. 0" and k = 4 and p = PMin and pseudocount = "1 / 10"]
    by (simp add: example_matrix_ok)
  have e: "\<not> degenerate_input example_matrix 3"
    by (simp add: degenerate_input_def example_matrix_ok)
  have f: "\<nexists>e. greedy_power_mean_sample_final (\<lambda>x. x) (\<lambda>r q. 0) example_matrix 3 PMin (1 / 10) = Inl e"
    using greedy_raises_iff_degenerate[where rnd = "\<lambda>x. x" and M = example_matrix and pm = "\<lambda>r q. 0" and k = 3 and p = PMin and pseudocount = "1 / 10"] e
    by (simp add: example_matrix_ok)
  show ?thesis using a b c d e f by blast
qed

lemma rounding_exact: "rounding (\<lambda>x. x)"
  by (simp add: rounding_def mono_def)

lemma reach_counts_repr:
  assumes wf: "wf_ndarray M"
    and idem: "\<forall>x. rnd (rnd x) = rnd x" and zero: "rnd 0 = 0"
    and s: "greedy_loop rnd pm p i (init_state rnd M pc) = Inr s"
  shows "list_all (\<lambda>c. rnd c = c) (counts s)"
proof (cases i)
  case 0
  then have "s = init_state rnd M pc" using s by simp
  then show ?thesis by (simp add: init_state_def list_all_iff zero)
next
  case (Suc i')
  from s[unfolded Suc greedy_loop_snoc] obtain t where
    t: "greedy_loop rnd pm p i' (init_state rnd M pc) = Inr t" "greedy_step rnd pm p t = Inr s"
    by (auto split: sum.splits)
  have inv: "loop_inv (shape0 M) (shape1 M) (aug_matrix rnd M pc) t"
    using greedy_reach_inv[OF wf t(1)] .
  from greedy_step_Inr[OF inv aug_matrix_shape[OF wf] t(2)] obtain c where
    "counts s = map2 (\<lambda>c x. rnd (c + x)) (counts t) (aug_matrix rnd M pc ! (indices t ! c))"
    by auto
  then show ?thesis using idem by (auto simp: list_all_iff)
qed

section \<open>The selection follows the rounded sums\<close>

text \<open>
  On the matrix \<open>[[0, 0], [0, 1], [1, 0], [2, 0]]\<close> with \<open>k = 3\<close>, \<open>p = min\<close> and pseudocount
  \<open>0.1\<close>, the two candidates of the third iteration have the scores \<open>0.2 + 1.1\<close> and
  \<open>(0.1 + 1.1) + 0.1\<close>. In exact arithmetic they tie and row 2 is selected. Whenever the second
  rounded sum is the larger one, as in doubles (\<open>1.3\<close> against \<open>1.3000000000000003\<close>), there is
  no tie and row 3 is selected.
\<close>

lemma tie_matrix_exact:
  "greedy_power_mean_sample_final (\<lambda>x. x) (\<lambda>r q. 0) tie_matrix 3 PMin (1 / 10) = Inr [0, 1, 2]"
  by code_simp

lemma tie_matrix_rounded:
  fixes rnd :: "real \<Rightarrow> real"
  defines "a0 \<equiv> rnd (1 / 10)" and "a1 \<equiv> rnd (11 / 10)" and "a2 \<equiv> rnd (21 / 10)"
  defines "b \<equiv> rnd (a0 + a0)" and "c \<equiv> rnd (a0 + a1)"
  assumes r: "rounding rnd"
    and h1: "rnd (b + a1) < rnd (c + a0)"
    and h2: "rnd (b + a1) < rnd (b + a2)"
  shows "greedy_power_mean_sample_final rnd pm tie_matrix 3 PMin (1 / 10) = Inr [0, 1, 3]"
proof -
  have mono: "\<And>x y. x \<le> y \<Longrightarrow> rnd x \<le> rnd y" and idem: "\<And>x. rnd (rnd x) = rnd x"
    using r by (auto simp: rounding_def mono_def)
  have o: "a0 \<le> a1" "a1 \<le> a2" "a0 \<le> a2" unfolding a0_def a1_def a2_def by (auto intro: mono)
  have i: "rnd a0 = a0" "rnd a1 = a1" "rnd a2 = a2" unfolding a0_def a1_def a2_def by (simp_all add: idem)
  have bc: "b \<le> c" "b \<le> rnd (a0 + a2)" unfolding b_def c_def using o by (auto intro: mono)
  have m: "min a0 a1 = a0" "min a1 a0 = a0" "min a2 a0 = a0" "min b c = b" "min c b = b"
    "min (rnd (a0 + a2)) b = b"
    using o bc by (simp_all add: min_def)
  have b2: "rnd (2 * a0) = b" by (simp add: b_def)
  have m3: "min (rnd (b + a1)) (rnd (c + a0)) = rnd (b + a1)" using h1 by (simp add: min_def)
  have lt: "rnd (b + a1) < min (rnd (b + a2)) (rnd (c + a0))" using h1 h2 by simp
  have d: "map (map (\<lambda>x. rnd (real_of_int x + 1 / 10))) (rows tie_matrix) =
           [[a0, a0], [a0, a1], [a1, a0], [a2, a0]]"
    by (simp add: tie_matrix_def a0_def a1_def a2_def)
  let ?s0 = "\<lparr> counts = [0, 0], data = [[a0, a0], [a0, a1], [a1, a0], [a2, a0]],
               indices = [0, 1, 2, 3], selected = [] \<rparr>"
  let ?s1 = "\<lparr> counts = [a0, a0], data = [[a0, a1], [a1, a0], [a2, a0]],
               indices = [1, 2, 3], selected = [0] \<rparr>"
  let ?s2 = "\<lparr> counts = [b, c], data = [[a1, a0], [a2, a0]],
               indices = [2, 3], selected = [0, 1] \<rparr>"
  let ?s3 = "\<lparr> counts = [rnd (b + a2), rnd (c + a0)], data = [[a1, a0]],
               indices = [2], selected = [0, 1, 3] \<rparr>"
  have u: "[0 ..< 4] = [0, 1, 2, 3]" by code_simp
  have init: "init_state rnd tie_matrix (1 / 10) = ?s0"
    unfolding init_state_def d by (simp add: tie_matrix_def numeral_2_eq_2 u)
  have s1: "greedy_step rnd pm PMin ?s0 = Inr ?s1"
    by (simp add: greedy_step_def add_rows_def row_scores_def argmax_def delete_at_def i m)
  have s2: "greedy_step rnd pm PMin ?s1 = Inr ?s2"
    by (simp add: greedy_step_def add_rows_def row_scores_def argmax_def delete_at_def m b2
        c_def[symmetric])
  have s3: "greedy_step rnd pm PMin ?s2 = Inr ?s3"
    using lt by (simp add: greedy_step_def add_rows_def row_scores_def argmax_def delete_at_def m3)
  have run: "greedy_loop rnd pm PMin (Suc (Suc (Suc 0))) ?s0 = Inr ?s3"
    by (simp only: greedy_loop.simps s1 s2 s3 sum.case)
  have k: "nat 3 = Suc (Suc (Suc 0))" by simp
  have nd: "\<not> (shape0 tie_matrix = 0 \<or> shape1 tie_matrix = 0)" "\<not> all_zero tie_matrix"
    "\<not> int (shape0 tie_matrix) \<le> 3"
    by (simp_all add: tie_matrix_def all_zero_def)
  show ?thesis
    unfolding greedy_power_mean_sample_final_def init k run using nd by simp
qed

section \<open>Ties go to the smallest original row index\<close>

text \<open>
  Claim C2. In every iteration of \<open>greedy_power_mean_sample_final\<close> (from the state \<open>s\<close> after
  \<open>i\<close> iterations to the state \<open>s'\<close> after \<open>i + 1\<close>), the working array holds the rows not yet
  selected in ascending order of their original index, \<open>argmax\<close> returns the first position
  \<open>c\<close> of the maximum score, and the row appended to the selection, \<open>indices s ! c\<close>, has a
  maximal score among the remaining rows and the smallest original index among the remaining
  rows that attain this score.
\<close>

theorem greedy_tie_break_smallest_index:
  fixes rnd M pseudocount pm p s
  defines "score \<equiv> (\<lambda>g. trial_score rnd pm p (counts s) (aug_matrix rnd M pseudocount ! g))"
  assumes wf: "wf_ndarray M"
    and s: "greedy_loop rnd pm p i (init_state rnd M pseudocount) = Inr s"
    and s': "greedy_loop rnd pm p (Suc i) (init_state rnd M pseudocount) = Inr s'"
  shows "\<exists>c. c < length (indices s) \<and>
           sorted_wrt (<) (indices s) \<and>
           set (indices s) = {0 ..< shape0 M} - set (selected s) \<and>
           data s = map (\<lambda>g. aug_matrix rnd M pseudocount ! g) (indices s) \<and>
           row_scores pm p (add_rows rnd (counts s) (data s)) = Inr (map score (indices s)) \<and>
           argmax (map score (indices s)) = Inr c \<and>
           (\<forall>j<c. score (indices s ! j) < score (indices s ! c)) \<and>
           selected s' = selected s @ [indices s ! c] \<and>
           (\<forall>h\<in>set (indices s). score h \<le> score (indices s ! c)) \<and>
           (\<forall>h\<in>set (indices s). score h = score (indices s ! c) \<longrightarrow> indices s ! c \<le> h)"
proof -
  have inv: "loop_inv (shape0 M) (shape1 M) (aug_matrix rnd M pseudocount) s"
    using greedy_reach_inv[OF wf s] .
  have st: "greedy_step rnd pm p s = Inr s'" using s'[unfolded greedy_loop_snoc s] by simp
  from greedy_step_Inr[OF inv aug_matrix_shape[OF wf] st] obtain c sc where
    sc: "row_scores pm p (add_rows rnd (counts s) (data s)) = Inr sc" and
    am: "argmax sc = Inr c" and len: "length sc = length (indices s)" and
    c: "c < length (indices s)" and
    mx: "\<forall>j<length (indices s). sc ! j \<le> sc ! c" and fst: "\<forall>j<c. sc ! j < sc ! c" and
    sel: "selected s' = selected s @ [indices s ! c]" by auto
  have srt: "sorted_wrt (<) (indices s)"
    and rem: "set (indices s) = {0 ..< shape0 M} - set (selected s)"
    and dat: "data s = map (\<lambda>g. aug_matrix rnd M pseudocount ! g) (indices s)"
    using inv by (simp_all add: loop_inv_def)
  have sc_eq: "sc = map score (indices s)"
    using row_scores_trial[OF sc] dat by (simp add: score_def)
  have nth: "\<And>j. j < length (indices s) \<Longrightarrow> sc ! j = score (indices s ! j)"
    by (simp add: sc_eq)
  have a: "\<forall>j<c. score (indices s ! j) < score (indices s ! c)"
    using fst c nth by auto
  have b: "\<forall>h\<in>set (indices s). score h \<le> score (indices s ! c)"
    using mx c nth by (auto simp: in_set_conv_nth)
  have d: "\<forall>h\<in>set (indices s). score h = score (indices s ! c) \<longrightarrow> indices s ! c \<le> h"
  proof (intro ballI impI)
    fix h assume h: "h \<in> set (indices s)" and e: "score h = score (indices s ! c)"
    from h obtain j where j: "j < length (indices s)" "indices s ! j = h"
      by (auto simp: in_set_conv_nth)
    have "\<not> j < c" using a e j by auto
    then have "c \<le> j" by simp
    then show "indices s ! c \<le> h"
      using srt j by (cases "c = j") (auto simp: sorted_wrt_iff_nth_less less_imp_le)
  qed
  show ?thesis using c srt rem dat sc am sel a b d unfolding sc_eq by blast
qed

theorem greedy_tie_break_smallest_index_witness:
  "wf_ndarray example_matrix \<and>
   greedy_loop (\<lambda>x. x) (\<lambda>r q. 0) PMin 1 (init_state (\<lambda>x. x) example_matrix (1 / 10)) = Inr example_state1 \<and>
   greedy_loop (\<lambda>x. x) (\<lambda>r q. 0) PMin (Suc 1) (init_state (\<lambda>x. x) example_matrix (1 / 10)) = Inr example_state2 \<and>
   map (\<lambda>g. trial_score (\<lambda>x. x) (\<lambda>r q. 0) PMin (counts example_state1) (aug_matrix (\<lambda>x. x) example_matrix (1 / 10) ! g))
     (indices example_state1) = [12 / 10, 12 / 10, 12 / 10] \<and>
   (\<exists>c<length (indices example_state1).
      selected example_state2 = selected example_state1 @ [indices example_state1 ! c] \<and>
      (\<forall>h\<in>set (indices example_state1). indices example_state1 ! c \<le> h))"
proof -
  let ?pm = "\<lambda>(r::real list) (q::int). 0::real"
  have h1: "wf_ndarray example_matrix" by (rule example_matrix_ok)
  have h2: "greedy_loop (\<lambda>x. x) ?pm PMin 1 (init_state (\<lambda>x. x) example_matrix (1 / 10)) = Inr example_state1"
    by (rule example_run1)
  have h3: "greedy_loop (\<lambda>x. x) ?pm PMin (Suc 1) (init_state (\<lambda>x. x) example_matrix (1 / 10)) = Inr example_state2"
    using example_run2[of ?pm] by (simp add: numeral_2_eq_2)
  have sc: "map (\<lambda>g. trial_score (\<lambda>x. x) ?pm PMin (counts example_state1) (aug_matrix (\<lambda>x. x) example_matrix (1 / 10) ! g))
     (indices example_state1) = [12 / 10, 12 / 10, 12 / 10]"
    by (simp add: trial_score_def aug_matrix_def example_matrix_def example_state1_def)
  from greedy_tie_break_smallest_index[OF h1 h2 h3] obtain c where
    c: "c < length (indices example_state1)"
    "selected example_state2 = selected example_state1 @ [indices example_state1 ! c]"
    "\<forall>h\<in>set (indices example_state1).
        trial_score (\<lambda>x. x) ?pm PMin (counts example_state1) (aug_matrix (\<lambda>x. x) example_matrix (1 / 10) ! h) =
        trial_score (\<lambda>x. x) ?pm PMin (counts example_state1)
          (aug_matrix (\<lambda>x. x) example_matrix (1 / 10) ! (indices example_state1 ! c)) \<longrightarrow>
        indices example_state1 ! c \<le> h" by blast
  have "indices example_state1 ! c = 0"
    using c(1,2) by (auto simp: example_state1_def example_state2_def less_Suc_eq numeral_3_eq_3)
  then have "\<forall>h\<in>set (indices example_state1). indices example_state1 ! c \<le> h" by simp
  with h1 h2 h3 sc c(1,2) show ?thesis by blast
qed

section \<open>The cumulative counts never decrease\<close>

text \<open>
  Claim C9. With a positive pseudocount and non-negative matrix entries, the cumulative
  counts vector after iteration \<open>i + 1\<close> is, in every genome column, at least the vector after
  iteration \<open>i\<close>: both have one entry for every column, and they are related component-wise
  by \<open>\<le>\<close>. This holds for every rounding of the sums that is monotone, leaves a double
  unchanged and leaves zero unchanged, as rounding to the nearest double does, and so also
  for exact arithmetic.
\<close>

theorem counts_nondecreasing:
  assumes wf: "wf_ndarray M"
    and nonneg: "list_all (list_all (\<lambda>x. 0 \<le> x)) (rows M)"
    and pc: "0 < pseudocount"
    and rnd: "rounding rnd"
    and s: "greedy_loop rnd pm p i (init_state rnd M pseudocount) = Inr s"
    and s': "greedy_loop rnd pm p (Suc i) (init_state rnd M pseudocount) = Inr s'"
  shows "length (counts s) = shape1 M \<and> list_all2 (\<le>) (counts s) (counts s')"
proof -
  let ?aug = "aug_matrix rnd M pseudocount"
  have mono: "mono rnd" and idem: "\<forall>x. rnd (rnd x) = rnd x" and zero: "rnd 0 = 0"
    using rnd by (simp_all add: rounding_def)
  have inv: "loop_inv (shape0 M) (shape1 M) ?aug s"
    using greedy_reach_inv[OF wf s] .
  have st: "greedy_step rnd pm p s = Inr s'" using s'[unfolded greedy_loop_snoc s] by simp
  from greedy_step_Inr[OF inv aug_matrix_shape[OF wf] st] obtain c where
    c: "c < length (indices s)" and
    cs: "counts s' = map2 (\<lambda>c x. rnd (c + x)) (counts s) (?aug ! (indices s ! c))" by auto
  have g: "indices s ! c < shape0 M"
    using inv c unfolding loop_inv_def by (metis DiffD1 atLeastLessThan_iff nth_mem)
  have len: "length (counts s) = shape1 M" using inv by (simp add: loop_inv_def)
  have rl: "length (?aug ! (indices s ! c)) = shape1 M"
    using aug_matrix_shape[OF wf, where pc = pseudocount and rnd = rnd] g
    by (simp add: list_all_length)
  have repr: "list_all (\<lambda>c. rnd c = c) (counts s)"
    using reach_counts_repr[OF wf idem zero s] .
  have step: "\<forall>j<shape1 M. counts s ! j \<le> rnd (counts s ! j + ?aug ! (indices s ! c) ! j)"
  proof (intro allI impI)
    fix j assume j: "j < shape1 M"
    have r: "indices s ! c < length (rows M)" using wf g by (simp add: wf_ndarray_def)
    have l: "length (rows M ! (indices s ! c)) = shape1 M"
      using wf r by (simp add: wf_ndarray_def list_all_length)
    have v: "0 \<le> rows M ! (indices s ! c) ! j"
      using nonneg r l j by (simp add: list_all_length)
    have "0 \<le> real_of_int (rows M ! (indices s ! c) ! j) + pseudocount" using v pc by simp
    from monoD[OF mono this] have "0 \<le> rnd (real_of_int (rows M ! (indices s ! c) ! j) + pseudocount)"
      by (simp add: zero)
    then have x: "0 \<le> ?aug ! (indices s ! c) ! j" using r l j by (simp add: aug_matrix_def)
    have cj: "rnd (counts s ! j) = counts s ! j"
      using repr len j by (simp add: list_all_length)
    have "counts s ! j \<le> counts s ! j + ?aug ! (indices s ! c) ! j" using x by simp
    from monoD[OF mono this] show "counts s ! j \<le> rnd (counts s ! j + ?aug ! (indices s ! c) ! j)"
      by (simp add: cj)
  qed
  have "list_all2 (\<le>) (counts s) (map2 (\<lambda>c x. rnd (c + x)) (counts s) (?aug ! (indices s ! c)))"
    using len rl step by (simp add: list_all2_conv_all_nth)
  then show ?thesis using len cs by simp
qed

theorem counts_nondecreasing_witness:
  "wf_ndarray example_matrix \<and> list_all (list_all (\<lambda>x. 0 \<le> x)) (rows example_matrix) \<and>
   (0::real) < 1 / 10 \<and> rounding (\<lambda>x. x) \<and>
   greedy_loop (\<lambda>x. x) (\<lambda>r q. 0) PMin 1 (init_state (\<lambda>x. x) example_matrix (1 / 10)) = Inr example_state1 \<and>
   greedy_loop (\<lambda>x. x) (\<lambda>r q. 0) PMin (Suc 1) (init_state (\<lambda>x. x) example_matrix (1 / 10)) = Inr example_state2 \<and>
   length (counts example_state1) = shape1 example_matrix \<and>
   list_all2 (\<le>) (counts example_state1) (counts example_state2)"
proof -
  let ?pm = "\<lambda>(r::real list) (q::int). 0::real"
  have h1: "wf_ndarray example_matrix" by (rule example_matrix_ok)
  have h2: "list_all (list_all (\<lambda>x. 0 \<le> x)) (rows example_matrix)"
    by (simp add: example_matrix_def)
  have h3: "(0::real) < 1 / 10" by simp
  have hr: "rounding (\<lambda>x. x)" by (rule rounding_exact)
  have h4: "greedy_loop (\<lambda>x. x) ?pm PMin 1 (init_state (\<lambda>x. x) example_matrix (1 / 10)) = Inr example_state1"
    by (rule example_run1)
  have h5: "greedy_loop (\<lambda>x. x) ?pm PMin (Suc 1) (init_state (\<lambda>x. x) example_matrix (1 / 10)) = Inr example_state2"
    using example_run2[of ?pm] by (simp add: numeral_2_eq_2)
  from counts_nondecreasing[OF h1 h2 h3 hr h4 h5] h1 h2 h3 hr h4 h5 show ?thesis by blast
qed

section \<open>The example scenario\<close>

text \<open>
  Claim C4, as the source behaves. On the example matrix with \<open>k = 3\<close>, \<open>p = min\<close> and
  pseudocount \<open>0.1\<close> the selector picks the all-ones row (index 3) first, then rows 0 and 1;
  the final cumulative counts are \<open>[5.3, 5.3, 1.3]\<close>, so every genome total is at least \<open>1.3\<close>,
  and they are not all at least \<open>4.1\<close>: the third genome is covered by the all-ones row only.
\<close>

theorem example_scenario:
  "greedy_power_mean_sample_final (\<lambda>x. x) pm example_matrix 3 PMin (1 / 10) = Inr [3, 0, 1] \<and>
   greedy_loop (\<lambda>x. x) pm PMin 3 (init_state (\<lambda>x. x) example_matrix (1 / 10)) = Inr example_state3 \<and>
   counts example_state3 = [53 / 10, 53 / 10, 13 / 10] \<and>
   list_all (\<lambda>c. 13 / 10 \<le> c) (counts example_state3) \<and>
   \<not> list_all (\<lambda>c. 41 / 10 \<le> c) (counts example_state3)"
proof -
  have "greedy_power_mean_sample_final (\<lambda>x. x) pm example_matrix 3 PMin (1 / 10) = Inr [3, 0, 1]"
    unfolding greedy_power_mean_sample_final_def
    by (simp add: example_matrix_ok example_run3[simplified] example_state3_def)
  then show ?thesis by (simp add: example_run3 example_state3_def)
qed

text \<open>
  The claim as it was stated, that index 3 is selected first and all final totals are at
  least \<open>4.1\<close>, fails on this input.
\<close>

theorem example_final_totals_counterexample:
  "\<not> (\<exists>s. greedy_loop (\<lambda>x. x) (\<lambda>r q. 0) PMin 3 (init_state (\<lambda>x. x) example_matrix (1 / 10)) = Inr s \<and>
          hd (selected s) = 3 \<and> list_all (\<lambda>c. 41 / 10 \<le> c) (counts s))"
  by (simp add: example_run3 example_state3_def)

section \<open>The copy filter keeps the scores within the threshold of the group maximum\<close>

lemma amax_Max: "xs \<noteq> [] \<Longrightarrow> amax xs = Max (set xs)"
proof -
  assume "xs \<noteq> []"
  then obtain x ys where xs: "xs = x # ys" by (cases xs) auto
  have "amax (x # ys) = Max (set (x # ys))" unfolding Max.set_eq_fold by simp
  then show ?thesis by (simp only: xs)
qed

lemma filter_zip_map:
  "map fst (filter (\<lambda>(r, v). P r v) (zip xs (map f xs))) = filter (\<lambda>r. P r (f r)) xs"
  by (induction xs) auto

lemma group_max:
  assumes "r \<in> set df"
  shows "amax (map bit_score (filter (same_group r) df)) =
         Max (bit_score ` {r' \<in> set df. genome r' = genome r \<and> gene_family r' = gene_family r})"
proof -
  have "r \<in> set (filter (same_group r) df)" using assms by (simp add: same_group_def)
  then have "filter (same_group r) df \<noteq> []" by (metis empty_iff list.set(1))
  then have ne: "map bit_score (filter (same_group r) df) \<noteq> []" by simp
  have "set (map bit_score (filter (same_group r) df)) =
        bit_score ` {r' \<in> set df. genome r' = genome r \<and> gene_family r' = gene_family r}"
    by (auto simp: same_group_def)
  with amax_Max[OF ne] show ?thesis by simp
qed

lemma group_max_ge:
  assumes "r \<in> set df"
  shows "bit_score r \<le>
         Max (bit_score ` {r' \<in> set df. genome r' = genome r \<and> gene_family r' = gene_family r})"
  using assms by (intro Max_ge) auto

lemma group_max_in:
  assumes "r \<in> set df"
  shows "Max (bit_score ` {r' \<in> set df. genome r' = genome r \<and> gene_family r' = gene_family r})
         \<in> bit_score ` set df"
proof -
  let ?G = "bit_score ` {r' \<in> set df. genome r' = genome r \<and> gene_family r' = gene_family r}"
  have "?G \<noteq> {}" using assms by auto
  moreover have "finite ?G" by simp
  ultimately have "Max ?G \<in> ?G" by (rule Max_in[rotated])
  then show ?thesis by auto
qed

lemma filter_copies_eq:
  assumes "0 \<le> t" "t \<le> 1"
  shows "filter_copies rnd df t =
     Inr (filter (\<lambda>r. rnd (t * Max (bit_score ` {r' \<in> set df. genome r' = genome r \<and>
                                            gene_family r' = gene_family r})) \<le> bit_score r) df)"
proof -
  have "filter_copies rnd df t =
        Inr (filter (\<lambda>r. rnd (amax (map bit_score (filter (same_group r) df)) * t) \<le> bit_score r)
               df)"
    using assms by (simp add: filter_copies_def max_scores_def filter_zip_map)
  also have "filter (\<lambda>r. rnd (amax (map bit_score (filter (same_group r) df)) * t) \<le> bit_score r)
               df =
     filter (\<lambda>r. rnd (t * Max (bit_score ` {r' \<in> set df. genome r' = genome r \<and>
                                            gene_family r' = gene_family r})) \<le> bit_score r) df"
    by (rule filter_cong) (simp_all add: group_max mult.commute)
  finally show ?thesis .
qed

text \<open>
  Where the exact product and its rounding lie on different sides of a score, the rounding
  decides: a group with the scores \<open>100\<close> and \<open>90\<close> keeps both rows whenever \<open>100 * t\<close> rounds
  to \<open>90\<close>, as it does for the double nearest to \<open>0.9\<close>, whose exact product is larger.
\<close>

lemma filter_copies_rounded_product:
  assumes "0 \<le> t" "t \<le> 1" "same_group a b" "bit_score a = 100" "bit_score b = 90"
    and "rnd (100 * t) = 90"
  shows "filter_copies rnd [a, b] t = Inr [a, b]"
  using assms by (auto simp: filter_copies_def max_scores_def same_group_def)

text \<open>
  Claim C7. \<open>filter_copies\<close> raises exactly when the threshold \<open>t\<close> is outside \<open>[0, 1]\<close>. For
  \<open>t\<close> in \<open>[0, 1]\<close> it returns, in their order, exactly the rows whose score is at least the
  product, as a double, of \<open>t\<close> and the largest score of their (genome, gene family) group.
  So with \<open>t = 0\<close> every row is kept, the scores being non-negative as the annotation input
  guarantees, and with \<open>t = 1\<close> exactly the rows that attain the maximum of their group are
  kept, the scores being doubles: on a group with the scores \<open>10, 10, 7\<close> the threshold \<open>1\<close>
  keeps the two rows scoring \<open>10\<close> and the threshold \<open>0\<close> keeps all three.
\<close>

theorem filter_copies_threshold:
  fixes rnd df t
  defines "gmax \<equiv> (\<lambda>r. Max (bit_score ` {r' \<in> set df. genome r' = genome r \<and>
                                       gene_family r' = gene_family r}))"
  shows "((\<exists>e. filter_copies rnd df t = Inl e) \<longleftrightarrow> \<not> (0 \<le> t \<and> t \<le> 1)) \<and>
         (\<not> (0 \<le> t \<and> t \<le> 1) \<longrightarrow> filter_copies rnd df t = Inl ThresholdRange) \<and>
         (0 \<le> t \<and> t \<le> 1 \<longrightarrow>
            filter_copies rnd df t = Inr (filter (\<lambda>r. rnd (t * gmax r) \<le> bit_score r) df)) \<and>
         (rnd 0 = 0 \<and> list_all (\<lambda>r. 0 \<le> bit_score r) df \<longrightarrow>
            filter_copies rnd df 0 = Inr df) \<and>
         (list_all (\<lambda>r. rnd (bit_score r) = bit_score r) df \<longrightarrow>
            filter_copies rnd df 1 = Inr (filter (\<lambda>r. bit_score r = gmax r) df)) \<and>
         (same_group a b \<and> same_group a c \<and> bit_score a = 10 \<and> bit_score b = 10 \<and>
          bit_score c = 7 \<and> rnd 10 = 10 \<and> rnd 0 = 0 \<longrightarrow>
            filter_copies rnd [a, b, c] 1 = Inr [a, b] \<and>
            filter_copies rnd [a, b, c] 0 = Inr [a, b, c])"
proof -
  have e1: "\<not> (0 \<le> t \<and> t \<le> 1) \<Longrightarrow> filter_copies rnd df t = Inl ThresholdRange"
    by (simp add: filter_copies_def)
  have e2: "0 \<le> t \<and> t \<le> 1 \<Longrightarrow>
      filter_copies rnd df t = Inr (filter (\<lambda>r. rnd (t * gmax r) \<le> bit_score r) df)"
    unfolding gmax_def using filter_copies_eq[of t rnd df] by simp
  have e0: "(\<exists>e. filter_copies rnd df t = Inl e) \<longleftrightarrow> \<not> (0 \<le> t \<and> t \<le> 1)"
    using e1 e2 by (cases "0 \<le> t \<and> t \<le> 1") auto
  have z: "rnd 0 = 0 \<and> list_all (\<lambda>r. 0 \<le> bit_score r) df \<Longrightarrow> filter_copies rnd df 0 = Inr df"
  proof -
    assume h: "rnd 0 = 0 \<and> list_all (\<lambda>r. 0 \<le> bit_score r) df"
    then have "filter (\<lambda>r. 0 \<le> bit_score r) df = df" by (simp add: list_all_iff)
    then show ?thesis using filter_copies_eq[of 0 rnd df] h by simp
  qed
  have o: "list_all (\<lambda>r. rnd (bit_score r) = bit_score r) df \<Longrightarrow>
     filter_copies rnd df 1 = Inr (filter (\<lambda>r. bit_score r = gmax r) df)"
  proof -
    assume h: "list_all (\<lambda>r. rnd (bit_score r) = bit_score r) df"
    have "filter (\<lambda>r. rnd (1 * gmax r) \<le> bit_score r) df =
          filter (\<lambda>r. bit_score r = gmax r) df"
    proof (rule filter_cong[OF refl])
      fix r assume r: "r \<in> set df"
      from group_max_ge[OF r] have le: "bit_score r \<le> gmax r" by (simp add: gmax_def)
      from group_max_in[OF r] obtain r' where "r' \<in> set df" "gmax r = bit_score r'"
        unfolding gmax_def by auto
      then have "rnd (gmax r) = gmax r" using h by (simp add: list_all_iff)
      then show "(rnd (1 * gmax r) \<le> bit_score r) = (bit_score r = gmax r)" using le by auto
    qed
    then show ?thesis unfolding gmax_def using filter_copies_eq[of 1 rnd df] by simp
  qed
  have ex: "same_group a b \<and> same_group a c \<and> bit_score a = 10 \<and> bit_score b = 10 \<and>
          bit_score c = 7 \<and> rnd 10 = 10 \<and> rnd 0 = 0 \<Longrightarrow>
            filter_copies rnd [a, b, c] 1 = Inr [a, b] \<and>
            filter_copies rnd [a, b, c] 0 = Inr [a, b, c]"
    by (auto simp: filter_copies_def max_scores_def same_group_def)
  show ?thesis by (intro conjI impI e1 e2 z o ex, rule e0) simp_all
qed

theorem filter_copies_threshold_witness:
  "(\<exists>e. filter_copies (\<lambda>x. x)
          [example_hit ''G1_1'' 10, example_hit ''G1_2'' 10, example_hit ''G1_3'' 7] (3 / 2)
        = Inl e) \<and>
   filter_copies (\<lambda>x. x) [example_hit ''G1_1'' 10, example_hit ''G1_2'' 10, example_hit ''G1_3'' 7]
       (3 / 2)
     = Inl ThresholdRange \<and>
   filter_copies (\<lambda>x. x) [example_hit ''G1_1'' 10, example_hit ''G1_2'' 10, example_hit ''G1_3'' 7] 1
     = Inr [example_hit ''G1_1'' 10, example_hit ''G1_2'' 10] \<and>
   filter_copies (\<lambda>x. x) [example_hit ''G1_1'' 10, example_hit ''G1_2'' 10, example_hit ''G1_3'' 7] 0
     = Inr [example_hit ''G1_1'' 10, example_hit ''G1_2'' 10, example_hit ''G1_3'' 7]"
proof -
  let ?a = "example_hit ''G1_1'' 10" and ?b = "example_hit ''G1_2'' 10"
    and ?c = "example_hit ''G1_3'' 7"
  have h: "same_group ?a ?b \<and> same_group ?a ?c \<and> bit_score ?a = 10 \<and> bit_score ?b = 10 \<and>
           bit_score ?c = 7 \<and> (\<lambda>x::real. x) 10 = 10 \<and> (\<lambda>x::real. x) 0 = 0"
    by (simp add: same_group_def example_hit_def)
  have r: "\<not> (0 \<le> (3 / 2 :: real) \<and> (3 / 2 :: real) \<le> 1)" by simp
  note th = filter_copies_threshold[where rnd = "\<lambda>x. x" and df = "[?a, ?b, ?c]" and t = "3 / 2"
      and a = ?a and b = ?b and c = ?c]
  have e: "filter_copies (\<lambda>x. x) [?a, ?b, ?c] (3 / 2) = Inl ThresholdRange"
    by (rule th[THEN conjunct2, THEN conjunct1, THEN mp, OF r])
  have x: "filter_copies (\<lambda>x. x) [?a, ?b, ?c] 1 = Inr [?a, ?b] \<and>
           filter_copies (\<lambda>x. x) [?a, ?b, ?c] 0 = Inr [?a, ?b, ?c]"
    by (rule th[THEN conjunct2, THEN conjunct2, THEN conjunct2, THEN conjunct2, THEN conjunct2,
          THEN mp, OF h])
  show ?thesis using e x by simp
qed

section \<open>The coverage filter\<close>

lemma sum_axis0_length:
  "list_all (\<lambda>r. length r = m) rs \<Longrightarrow> length (sum_axis0 m rs) = m"
  by (induction rs) (simp_all add: sum_axis0_def)

lemma sum_axis0_nth:
  "list_all (\<lambda>r. length r = m) rs \<Longrightarrow> j < m \<Longrightarrow> sum_axis0 m rs ! j = (\<Sum>r\<leftarrow>rs. r ! j)"
proof (induction rs)
  case Nil
  then show ?case by (simp add: sum_axis0_def)
next
  case (Cons r rs)
  have l: "length (sum_axis0 m rs) = m" using Cons.prems(1) by (simp add: sum_axis0_length)
  have "sum_axis0 m (r # rs) = map2 (+) r (sum_axis0 m rs)" by (simp add: sum_axis0_def)
  then show ?case using Cons l by simp
qed

lemma mask_select_nth:
  assumes "length keep = length xs"
  shows "mask_select xs keep = Inr (map ((!) xs) (filter (\<lambda>j. keep ! j) [0 ..< length xs]))"
proof -
  have "map fst (filter snd (zip xs keep)) = map ((!) xs) (filter (\<lambda>j. keep ! j) [0 ..< length xs])"
    using assms
  proof (induction xs arbitrary: keep rule: rev_induct)
    case Nil
    then show ?case by simp
  next
    case (snoc x xs)
    then obtain k ks where keep: "keep = ks @ [k]" "length ks = length xs"
      by (cases keep rule: rev_cases) auto
    have "map fst (filter snd (zip xs ks)) = map ((!) xs) (filter (\<lambda>j. ks ! j) [0 ..< length xs])"
      using snoc.IH[OF keep(2)] .
    moreover have "map ((!) xs) (filter (\<lambda>j. ks ! j) [0 ..< length xs]) =
                   map ((!) (xs @ [x])) (filter (\<lambda>j. (ks @ [k]) ! j) [0 ..< length xs])"
      using keep(2) by (auto simp: nth_append intro!: map_cong filter_cong)
    ultimately show ?case using keep by (simp add: nth_append)
  qed
  then show ?thesis using assms by (simp add: mask_select_def)
qed

lemma get_genomes_to_keep_eq:
  assumes wf: "wf_ndarray adj"
    and idx: "list_all (\<lambda>i. i < shape0 adj) markers_index"
    and len: "length genomes = shape1 adj"
  shows "get_genomes_to_keep rnd adj k markers_index min_markers genomes =
     Inr (map ((!) genomes)
            (filter (\<lambda>j. (case min_markers of
                             PyFloat f \<Rightarrow>
                               if 0 \<le> f \<and> f \<le> 1 then rnd (f * real_of_int k) else f
                           | PyInt i \<Rightarrow> real_of_int i)
                          \<le> real_of_int (marker_total adj markers_index j))
               [0 ..< shape1 adj]))"
proof -
  let ?sel = "map (\<lambda>i. rows adj ! i) markers_index"
  let ?th = "case min_markers of
               PyFloat f \<Rightarrow> if 0 \<le> f \<and> f \<le> 1 then rnd (f * real_of_int k) else f
             | PyInt i \<Rightarrow> real_of_int i"
  have rl: "list_all (\<lambda>r. length r = shape1 adj) ?sel"
    using wf idx by (auto simp: wf_ndarray_def list_all_iff)
  have l: "length (sum_axis0 (shape1 adj) ?sel) = shape1 adj"
    using rl by (rule sum_axis0_length)
  have tot: "\<And>j. j < shape1 adj \<Longrightarrow>
      sum_axis0 (shape1 adj) ?sel ! j = marker_total adj markers_index j"
    using sum_axis0_nth[OF rl] by (simp add: marker_total_def comp_def)
  have "get_genomes_to_keep rnd adj k markers_index min_markers genomes =
        mask_select genomes (map (\<lambda>t. ?th \<le> real_of_int t) (sum_axis0 (shape1 adj) ?sel))"
    using idx by (simp add: get_genomes_to_keep_def take_rows_def)
  also have "\<dots> = Inr (map ((!) genomes)
      (filter (\<lambda>j. map (\<lambda>t. ?th \<le> real_of_int t) (sum_axis0 (shape1 adj) ?sel) ! j)
         [0 ..< length genomes]))"
    by (rule mask_select_nth) (simp add: l len)
  also have "filter (\<lambda>j. map (\<lambda>t. ?th \<le> real_of_int t) (sum_axis0 (shape1 adj) ?sel) ! j)
         [0 ..< length genomes] =
       filter (\<lambda>j. ?th \<le> real_of_int (marker_total adj markers_index j)) [0 ..< shape1 adj]"
    unfolding len by (rule filter_cong) (simp_all add: l tot)
  finally show ?thesis .
qed

lemma example_coverage_ok:
  "wf_ndarray example_coverage" "list_all (\<lambda>i. i < shape0 example_coverage) [0, 1, 2]"
  "length [''A'', ''B'', ''C''] = shape1 example_coverage"
  "map (marker_total example_coverage [0, 1, 2]) [0 ..< shape1 example_coverage] = [5, 3, 1]"
  by (simp_all add: example_coverage_def wf_ndarray_def marker_total_def numeral_3_eq_3)

text \<open>
  Where the exact product and its rounding lie on different sides of a total, the rounding
  decides: with the totals \<open>[5, 7, 3]\<close> and \<open>k = 50\<close> the genome with total \<open>5\<close> is kept whenever
  \<open>min_markers * 50\<close> rounds to \<open>5\<close>, as it does for the double nearest to \<open>0.1\<close>, whose exact
  product is larger.
\<close>

lemma get_genomes_to_keep_rounded_product:
  assumes wf: "wf_ndarray adj"
    and idx: "list_all (\<lambda>i. i < shape0 adj) markers_index"
    and tot: "map (marker_total adj markers_index) [0 ..< shape1 adj] = [5, 7, 3]"
    and f: "0 \<le> f" "f \<le> 1" and r: "rnd (f * 50) = 5"
  shows "get_genomes_to_keep rnd adj 50 markers_index (PyFloat f) [a, b, c] = Inr [a, b]"
proof -
  have m: "shape1 adj = 3" using arg_cong[OF tot, of length] by simp
  have u: "[0 ..< 3] = [0, 1, 2]" by (simp add: numeral_3_eq_3)
  from tot have t: "marker_total adj markers_index 0 = 5" "marker_total adj markers_index 1 = 7"
    "marker_total adj markers_index 2 = 3"
    unfolding m u by simp_all
  have t1: "marker_total adj markers_index (Suc 0) = 7" using t(2) by simp
  have len: "length [a, b, c] = shape1 adj" using m by simp
  show ?thesis
    using get_genomes_to_keep_eq[OF wf idx len, where rnd = rnd and k = 50
        and min_markers = "PyFloat f"] f r
    unfolding m u by (simp add: t t1)
qed

text \<open>
  Claim C5. For a well-formed matrix, marker indices in range and one genome label for every
  column, \<open>get_genomes_to_keep\<close> returns, in their order, exactly the genomes whose total over
  the selected rows of the raw matrix is at least \<open>\<tau>\<close>, where \<open>\<tau>\<close> is the product
  \<open>min_markers * k\<close>, as a double, for a float \<open>min_markers\<close> in \<open>[0, 1]\<close> and \<open>\<tau> = min_markers\<close>
  for an integer. With the totals \<open>[5, 3, 1]\<close>, \<open>k = 3\<close> and \<open>min_markers = 0.5\<close>, where the
  product \<open>1.5\<close> is a double, it keeps exactly the first two genomes.
\<close>

theorem get_genomes_to_keep_threshold:
  assumes wf: "wf_ndarray adj"
    and idx: "list_all (\<lambda>i. i < shape0 adj) markers_index"
    and len: "length genomes = shape1 adj"
  shows "(0 \<le> f \<and> f \<le> 1 \<longrightarrow>
            get_genomes_to_keep rnd adj k markers_index (PyFloat f) genomes =
              Inr (map ((!) genomes)
                     (filter (\<lambda>j. rnd (f * real_of_int k) \<le>
                                   real_of_int (marker_total adj markers_index j))
                        [0 ..< shape1 adj]))) \<and>
         get_genomes_to_keep rnd adj k markers_index (PyInt i) genomes =
           Inr (map ((!) genomes)
                  (filter (\<lambda>j. i \<le> marker_total adj markers_index j) [0 ..< shape1 adj])) \<and>
         (map (marker_total adj markers_index) [0 ..< shape1 adj] = [5, 3, 1] \<and>
          genomes = [a, b, c] \<and> rnd (3 / 2) = 3 / 2 \<longrightarrow>
            get_genomes_to_keep rnd adj 3 markers_index (PyFloat (1 / 2)) genomes = Inr [a, b])"
proof -
  note eq = get_genomes_to_keep_eq[OF wf idx len]
  have a: "0 \<le> f \<and> f \<le> 1 \<Longrightarrow>
            get_genomes_to_keep rnd adj k markers_index (PyFloat f) genomes =
              Inr (map ((!) genomes)
                     (filter (\<lambda>j. rnd (f * real_of_int k) \<le>
                                   real_of_int (marker_total adj markers_index j))
                        [0 ..< shape1 adj]))"
    using eq[where rnd = rnd and k = k and min_markers = "PyFloat f"] by simp
  have b: "get_genomes_to_keep rnd adj k markers_index (PyInt i) genomes =
           Inr (map ((!) genomes)
                  (filter (\<lambda>j. i \<le> marker_total adj markers_index j) [0 ..< shape1 adj]))"
    using eq[where rnd = rnd and k = k and min_markers = "PyInt i"] by simp
  have c: "map (marker_total adj markers_index) [0 ..< shape1 adj] = [5, 3, 1] \<and>
          genomes = [a, b, c] \<and> rnd (3 / 2) = 3 / 2 \<Longrightarrow>
            get_genomes_to_keep rnd adj 3 markers_index (PyFloat (1 / 2)) genomes = Inr [a, b]"
  proof -
    assume h: "map (marker_total adj markers_index) [0 ..< shape1 adj] = [5, 3, 1] \<and>
          genomes = [a, b, c] \<and> rnd (3 / 2) = 3 / 2"
    then have m: "shape1 adj = 3" using len by simp
    have u: "[0 ..< 3] = [0, 1, 2]" by (simp add: numeral_3_eq_3)
    from h have t: "marker_total adj markers_index 0 = 5" "marker_total adj markers_index 1 = 3"
      "marker_total adj markers_index 2 = 1"
      unfolding m u by simp_all
    show ?thesis
      using eq[where rnd = rnd and k = 3 and min_markers = "PyFloat (1 / 2)"] h unfolding m u
      by (simp add: t)
  qed
  show ?thesis by (intro conjI impI a b c) simp_all
qed

theorem get_genomes_to_keep_threshold_witness:
  "wf_ndarray example_coverage \<and> list_all (\<lambda>i. i < shape0 example_coverage) [0, 1, 2] \<and>
   length [''A'', ''B'', ''C''] = shape1 example_coverage \<and>
   map (marker_total example_coverage [0, 1, 2]) [0 ..< shape1 example_coverage] = [5, 3, 1] \<and>
   get_genomes_to_keep (\<lambda>x. x) example_coverage 3 [0, 1, 2] (PyFloat (1 / 2)) [''A'', ''B'', ''C'']
     = Inr [''A'', ''B''] \<and>
   get_genomes_to_keep (\<lambda>x. x) example_coverage 3 [0, 1, 2] (PyInt 3) [''A'', ''B'', ''C'']
     = Inr [''A'', ''B'']"
proof -
  note h = example_coverage_ok
  note th = get_genomes_to_keep_threshold[OF h(1,2,3), where rnd = "\<lambda>x. x"]
  have r: "(\<lambda>x::real. x) (3 / 2) = 3 / 2" by simp
  have a: "get_genomes_to_keep (\<lambda>x. x) example_coverage 3 [0, 1, 2] (PyFloat (1 / 2))
             [''A'', ''B'', ''C''] = Inr [''A'', ''B'']"
    by (rule th[THEN conjunct2, THEN conjunct2, THEN mp, OF conjI[OF h(4) conjI[OF refl r]]])
  have "get_genomes_to_keep (\<lambda>x. x) example_coverage 3 [0, 1, 2] (PyInt 3) [''A'', ''B'', ''C''] =
     Inr (map ((!) [''A'', ''B'', ''C''])
            (filter (\<lambda>j. 3 \<le> marker_total example_coverage [0, 1, 2] j)
               [0 ..< shape1 example_coverage]))"
    by (rule th[THEN conjunct2, THEN conjunct1])
  then have b: "get_genomes_to_keep (\<lambda>x. x) example_coverage 3 [0, 1, 2] (PyInt 3)
                  [''A'', ''B'', ''C''] = Inr [''A'', ''B'']"
    by (simp add: example_coverage_def marker_total_def numeral_3_eq_3)
  show ?thesis by (intro conjI h a b)
qed

text \<open>
  Claim C6, as the source behaves. \<open>get_genomes_to_keep\<close> does not validate \<open>min_markers\<close>:
  for a negative \<open>min_markers\<close> (integer or float) and for a float above \<open>1\<close> the call raises
  nothing on well-formed arguments; the value itself is the threshold, and the genomes whose
  total reaches it are returned.
\<close>

theorem get_genomes_to_keep_out_of_domain:
  assumes wf: "wf_ndarray adj"
    and idx: "list_all (\<lambda>i. i < shape0 adj) markers_index"
    and len: "length genomes = shape1 adj"
    and out: "case min_markers of PyInt i \<Rightarrow> i < 0 | PyFloat f \<Rightarrow> f < 0 \<or> 1 < f"
  shows "get_genomes_to_keep rnd adj k markers_index min_markers genomes =
           Inr (map ((!) genomes)
                  (filter (\<lambda>j. pynum_value min_markers \<le>
                                real_of_int (marker_total adj markers_index j))
                     [0 ..< shape1 adj]))"
proof -
  have "(case min_markers of
           PyFloat f \<Rightarrow> if 0 \<le> f \<and> f \<le> 1 then rnd (f * real_of_int k) else f
         | PyInt i \<Rightarrow> real_of_int i) = pynum_value min_markers"
    using out by (cases min_markers) auto
  then show ?thesis
    using get_genomes_to_keep_eq[OF wf idx len, where rnd = rnd and k = k
        and min_markers = min_markers] by simp
qed

theorem get_genomes_to_keep_out_of_domain_witness:
  "wf_ndarray example_coverage \<and> list_all (\<lambda>i. i < shape0 example_coverage) [0, 1, 2] \<and>
   length [''A'', ''B'', ''C''] = shape1 example_coverage \<and>
   (case PyFloat (3 / 2) of PyInt i \<Rightarrow> i < 0 | PyFloat f \<Rightarrow> f < 0 \<or> 1 < f) \<and>
   get_genomes_to_keep (\<lambda>x. x) example_coverage 3 [0, 1, 2] (PyFloat (3 / 2)) [''A'', ''B'', ''C'']
     = Inr [''A'', ''B'']"
proof -
  note h = example_coverage_ok
  have o: "case PyFloat (3 / 2) of PyInt i \<Rightarrow> i < 0 | PyFloat f \<Rightarrow> f < 0 \<or> 1 < f" by simp
  have "get_genomes_to_keep (\<lambda>x. x) example_coverage 3 [0, 1, 2] (PyFloat (3 / 2))
          [''A'', ''B'', ''C''] =
     Inr (map ((!) [''A'', ''B'', ''C''])
            (filter (\<lambda>j. pynum_value (PyFloat (3 / 2)) \<le>
                          real_of_int (marker_total example_coverage [0, 1, 2] j))
               [0 ..< shape1 example_coverage]))"
    by (rule get_genomes_to_keep_out_of_domain[OF h(1,2,3) o])
  then have "get_genomes_to_keep (\<lambda>x. x) example_coverage 3 [0, 1, 2] (PyFloat (3 / 2))
               [''A'', ''B'', ''C''] = Inr [''A'', ''B'']"
    by (simp add: example_coverage_def marker_total_def numeral_3_eq_3)
  then show ?thesis by (intro conjI h o)
qed

text \<open>
  The claim as it was stated, that a negative \<open>min_markers\<close> or a fraction above \<open>1\<close> makes the
  call fail, does not hold: the calls below return genome lists.
\<close>

theorem get_genomes_to_keep_no_error_counterexample:
  "get_genomes_to_keep (\<lambda>x. x) example_coverage 3 [0, 1, 2] (PyFloat (- 1 / 2)) [''A'', ''B'', ''C'']
     = Inr [''A'', ''B'', ''C''] \<and>
   get_genomes_to_keep (\<lambda>x. x) example_coverage 3 [0, 1, 2] (PyInt (- 1)) [''A'', ''B'', ''C'']
     = Inr [''A'', ''B'', ''C''] \<and>
   get_genomes_to_keep (\<lambda>x. x) example_coverage 3 [0, 1, 2] (PyFloat (3 / 2)) [''A'', ''B'', ''C'']
     = Inr [''A'', ''B''] \<and>
   \<not> (\<exists>e. get_genomes_to_keep (\<lambda>x. x) example_coverage 3 [0, 1, 2] (PyFloat (- 1 / 2))
           [''A'', ''B'', ''C''] = Inl e)"
  by (simp add: get_genomes_to_keep_def take_rows_def sum_axis0_def mask_select_def
      example_coverage_def numeral_3_eq_3)

section \<open>The matrix builder counts the edges\<close>

lemma index_of_mem: "x \<in> set u \<Longrightarrow> index_of u x < length u \<and> u ! index_of u x = x"
  by (induction u) auto

lemma index_of_nth: "distinct u \<Longrightarrow> i < length u \<Longrightarrow> index_of u (u ! i) = i"
proof (induction u arbitrary: i)
  case Nil
  then show ?case by simp
next
  case (Cons y ys)
  then show ?case by (cases i) auto
qed

lemma unique_props:
  "set (unique xs) = set xs" "distinct (unique xs)" "sorted (unique xs)"
  "unique xs = sorted_list_of_set (set xs)" "length (unique xs) = card (set xs)"
proof -
  show "unique xs = sorted_list_of_set (set xs)"
    by (simp add: unique_def sorted_list_of_set_sort_remdups)
  show "set (unique xs) = set xs" "distinct (unique xs)" "sorted (unique xs)"
    by (simp_all add: unique_def)
  show "length (unique xs) = card (set xs)"
    by (simp add: unique_def length_remdups_card_conv)
qed

lemma fold_max_bound:
  fixes x :: nat
  assumes "\<forall>y\<in>set (x # ys). y < N"
  shows "Suc (fold max ys x) \<le> N"
proof -
  have "fold max ys x = Max (set (x # ys))" by (simp only: Max.set_eq_fold)
  moreover have "Max (set (x # ys)) \<in> set (x # ys)" by (rule Max_in) simp_all
  ultimately show ?thesis using assms by (metis Suc_leI)
qed

lemma bincount_exact:
  assumes "\<forall>x\<in>set xs. x < N"
  shows "bincount xs N = map (\<lambda>b. int (count_list xs b)) [0 ..< N]"
proof (cases xs)
  case Nil
  then show ?thesis by (simp add: bincount_def)
next
  case (Cons x ys)
  have "Suc (fold max ys x) \<le> N" using assms fold_max_bound[of x ys N] Cons by simp
  then have "max N (Suc (fold max ys x)) = N" by simp
  then show ?thesis by (simp add: bincount_def Cons)
qed

lemma reshape_ok:
  assumes "length xs = r * c"
  shows "\<exists>a. reshape xs r c = Inr a \<and> wf_ndarray a \<and> shape0 a = r \<and> shape1 a = c \<and>
             (\<forall>i<r. \<forall>j<c. rows a ! i ! j = xs ! (i * c + j))"
proof -
  let ?a = "\<lparr> shape0 = r, shape1 = c, rows = map (\<lambda>i. take c (drop (i * c) xs)) [0 ..< r] \<rparr>"
  have bound: "\<And>i. i < r \<Longrightarrow> i * c + c \<le> r * c"
  proof -
    fix i assume "i < r"
    then have "Suc i \<le> r" by simp
    then have "Suc i * c \<le> r * c" by (rule mult_le_mono1)
    then show "i * c + c \<le> r * c" by (simp add: add.commute)
  qed
  have len: "\<And>i. i < r \<Longrightarrow> length (take c (drop (i * c) xs)) = c"
  proof -
    fix i assume "i < r"
    from bound[OF this] have "c \<le> r * c - i * c" by linarith
    then show "length (take c (drop (i * c) xs)) = c" using assms by simp
  qed
  have "wf_ndarray ?a" using len by (simp add: wf_ndarray_def list_all_iff)
  moreover have "\<forall>i<r. \<forall>j<c. rows ?a ! i ! j = xs ! (i * c + j)"
  proof (intro allI impI)
    fix i j assume i: "i < r" and j: "j < c"
    have "i * c + j < length xs" using bound[OF i] j assms by simp
    then show "rows ?a ! i ! j = xs ! (i * c + j)" using i j by simp
  qed
  ultimately show ?thesis using assms by (simp add: reshape_def)
qed


lemma flat_index_unique:
  fixes x y i j S :: nat
  assumes "y < S" "j < S"
  shows "(x * S + y = i * S + j) = (x = i \<and> y = j)"
proof
  assume e: "x * S + y = i * S + j"
  have "(x * S + y) div S = x" "(x * S + y) mod S = y" using assms by simp_all
  moreover have "(i * S + j) div S = i" "(i * S + j) mod S = j" using assms by simp_all
  ultimately show "x = i \<and> y = j" using e by simp
next
  assume "x = i \<and> y = j"
  then show "x * S + y = i * S + j" by simp
qed

lemma count_flat:
  assumes dg: "distinct gs" and ds: "distinct ss" and i: "i < length gs" and j: "j < length ss"
  shows "list_all (\<lambda>(a, b). a \<in> set gs \<and> b \<in> set ss) ps \<Longrightarrow>
         count_list (map (\<lambda>(a, b). index_of gs a * length ss + index_of ss b) ps)
           (i * length ss + j) = count_list ps (gs ! i, ss ! j)"
proof (induction ps)
  case Nil
  then show ?case by simp
next
  case (Cons ab ps)
  obtain a b where ab: "ab = (a, b)" by (cases ab)
  have a: "a \<in> set gs" and b: "b \<in> set ss" using Cons.prems ab by simp_all
  have ib: "index_of ss b < length ss" using index_of_mem[OF b] by simp
  have "(index_of gs a * length ss + index_of ss b = i * length ss + j) =
        (index_of gs a = i \<and> index_of ss b = j)"
    by (rule flat_index_unique[OF ib j])
  also have "\<dots> = (a = gs ! i \<and> b = ss ! j)"
    using index_of_mem[OF a] index_of_mem[OF b] index_of_nth[OF dg i] index_of_nth[OF ds j]
    by auto
  finally have eq: "(index_of gs a * length ss + index_of ss b = i * length ss + j) =
        (a = gs ! i \<and> b = ss ! j)" .
  have IH: "count_list (map (\<lambda>(a, b). index_of gs a * length ss + index_of ss b) ps)
           (i * length ss + j) = count_list ps (gs ! i, ss ! j)"
    using Cons by simp
  show ?case unfolding ab using IH eq by simp
qed

lemma count_list_positions: "count_list xs y = card {p. p < length xs \<and> xs ! p = y}"
proof -
  have "{p. p < length xs \<and> y = xs ! p} = {p. p < length xs \<and> xs ! p = y}" by auto
  then show ?thesis
    by (simp add: count_list_eq_length_filter length_filter_conv_card)
qed

lemma flat_indices:
  assumes "length eg = length es"
  shows "broadcast_add (map (\<lambda>i. i * S) (map (index_of gs) eg)) (map (index_of ss) es) =
         Inr (map (\<lambda>(a, b). index_of gs a * S + index_of ss b) (zip eg es))"
proof -
  have "map2 (+) (map (\<lambda>i. i * S) (map (index_of gs) eg)) (map (index_of ss) es) =
        map (\<lambda>(a, b). index_of gs a * S + index_of ss b) (zip eg es)"
    by (simp add: zip_map_map comp_def case_prod_beta)
  then show ?thesis using assms by (simp add: broadcast_add_def)
qed

lemma build_copy_number_matrix_ok:
  fixes edges_genes :: "'a::linorder list" and edges_genomes :: "'b::linorder list"
  assumes len: "length edges_genes = length edges_genomes"
  shows "\<exists>adj. build_copy_number_matrix edges_genes edges_genomes =
                 Inr (adj, unique edges_genomes, unique edges_genes) \<and>
               wf_ndarray adj \<and> shape0 adj = length (unique edges_genes) \<and>
               shape1 adj = length (unique edges_genomes) \<and>
               (\<forall>i<length (unique edges_genes). \<forall>j<length (unique edges_genomes).
                  rows adj ! i ! j =
                    int (count_list (zip edges_genes edges_genomes)
                           (unique edges_genes ! i, unique edges_genomes ! j)))"
proof -
  let ?gs = "unique edges_genes" and ?ss = "unique edges_genomes"
  let ?G = "length ?gs" and ?S = "length ?ss"
  let ?ps = "zip edges_genes edges_genomes"
  let ?f = "\<lambda>(a, b). index_of ?gs a * ?S + index_of ?ss b"
  let ?flat = "map ?f ?ps"
  have mem: "list_all (\<lambda>(a, b). a \<in> set ?gs \<and> b \<in> set ?ss) ?ps"
    by (auto simp: list_all_iff unique_props(1) dest: set_zip_leftD set_zip_rightD)
  have bound: "\<forall>x\<in>set ?flat. x < ?G * ?S"
  proof
    fix x assume "x \<in> set ?flat"
    then obtain a b where ab: "(a, b) \<in> set ?ps" and x: "x = index_of ?gs a * ?S + index_of ?ss b"
      by auto
    have a: "a \<in> set ?gs" and b: "b \<in> set ?ss"
      using ab by (auto simp: unique_props(1) dest: set_zip_leftD set_zip_rightD)
    have ia: "Suc (index_of ?gs a) \<le> ?G" and ib: "index_of ?ss b < ?S"
      using index_of_mem[OF a] index_of_mem[OF b] by simp_all
    have "index_of ?gs a * ?S + index_of ?ss b < Suc (index_of ?gs a) * ?S" using ib by simp
    also have "\<dots> \<le> ?G * ?S" using ia by (rule mult_le_mono1)
    finally show "x < ?G * ?S" unfolding x .
  qed
  have bc: "bincount ?flat (?G * ?S) = map (\<lambda>b. int (count_list ?flat b)) [0 ..< ?G * ?S]"
    using bound by (rule bincount_exact)
  then have "length (bincount ?flat (?G * ?S)) = ?G * ?S" by simp
  from reshape_ok[OF this] obtain adj where
    adj: "reshape (bincount ?flat (?G * ?S)) ?G ?S = Inr adj" "wf_ndarray adj"
    "shape0 adj = ?G" "shape1 adj = ?S"
    "\<forall>i<?G. \<forall>j<?S. rows adj ! i ! j = bincount ?flat (?G * ?S) ! (i * ?S + j)" by blast
  have entries: "\<forall>i<?G. \<forall>j<?S. rows adj ! i ! j = int (count_list ?ps (?gs ! i, ?ss ! j))"
  proof (intro allI impI)
    fix i j assume i: "i < ?G" and j: "j < ?S"
    have "Suc i \<le> ?G" using i by simp
    then have "Suc i * ?S \<le> ?G * ?S" by (rule mult_le_mono1)
    then have lt: "i * ?S + j < ?G * ?S" using j by simp
    have "rows adj ! i ! j = bincount ?flat (?G * ?S) ! (i * ?S + j)" using adj(5) i j by simp
    also have "\<dots> = int (count_list ?flat (i * ?S + j))" using lt by (simp add: bc)
    also have "count_list ?flat (i * ?S + j) = count_list ?ps (?gs ! i, ?ss ! j)"
      by (rule count_flat[OF unique_props(2) unique_props(2) i j mem])
    finally show "rows adj ! i ! j = int (count_list ?ps (?gs ! i, ?ss ! j))" .
  qed
  have "build_copy_number_matrix edges_genes edges_genomes = Inr (adj, ?ss, ?gs)"
    unfolding build_copy_number_matrix_def unique_inverse_def Let_def prod.case
      flat_indices[OF len] sum.case adj(1) by (rule refl)
  with adj(2,3,4) entries show ?thesis by blast
qed

text \<open>
  Claim C8. For every edge list, given as the array of gene families and the array of genomes
  of the same length, \<open>build_copy_number_matrix\<close> returns gene labels and genome labels that
  are the sorted distinct values of its inputs, and a well-formed matrix with one row for every
  gene label and one column for every genome label whose entry \<open>(i, j)\<close> is the number of
  positions of the edge list that carry the pair \<open>(genes ! i, genomes ! j)\<close>. The empty edge
  list yields the matrix of shape \<open>(0, 0)\<close> and empty label arrays.
\<close>

theorem build_copy_number_matrix_counts:
  fixes edges_genes :: "'a::linorder list" and edges_genomes :: "'b::linorder list"
  shows "(length edges_genes = length edges_genomes \<longrightarrow>
           (\<exists>adj genomes genes.
              build_copy_number_matrix edges_genes edges_genomes = Inr (adj, genomes, genes) \<and>
              genes = sorted_list_of_set (set edges_genes) \<and>
              sorted genes \<and> distinct genes \<and> set genes = set edges_genes \<and>
              genomes = sorted_list_of_set (set edges_genomes) \<and>
              sorted genomes \<and> distinct genomes \<and> set genomes = set edges_genomes \<and>
              wf_ndarray adj \<and> shape0 adj = length genes \<and> shape1 adj = length genomes \<and>
              (\<forall>i<length genes. \<forall>j<length genomes.
                 rows adj ! i ! j =
                   int (card {p. p < length edges_genes \<and> edges_genes ! p = genes ! i \<and>
                                 edges_genomes ! p = genomes ! j})))) \<and>
         build_copy_number_matrix ([] :: 'a list) ([] :: 'b list) =
           Inr (\<lparr> shape0 = 0, shape1 = 0, rows = [] \<rparr>, [], [])"
proof (intro conjI impI)
  assume len: "length edges_genes = length edges_genomes"
  let ?gs = "unique edges_genes" and ?ss = "unique edges_genomes"
  from build_copy_number_matrix_ok[OF len] obtain adj where
    adj: "build_copy_number_matrix edges_genes edges_genomes = Inr (adj, ?ss, ?gs)"
    "wf_ndarray adj" "shape0 adj = length ?gs" "shape1 adj = length ?ss"
    "\<forall>i<length ?gs. \<forall>j<length ?ss.
        rows adj ! i ! j = int (count_list (zip edges_genes edges_genomes) (?gs ! i, ?ss ! j))"
    by blast
  have pos: "\<And>g s. count_list (zip edges_genes edges_genomes) (g, s) =
      card {p. p < length edges_genes \<and> edges_genes ! p = g \<and> edges_genomes ! p = s}"
  proof -
    fix g s
    have "{p. p < length (zip edges_genes edges_genomes) \<and>
              zip edges_genes edges_genomes ! p = (g, s)} =
          {p. p < length edges_genes \<and> edges_genes ! p = g \<and> edges_genomes ! p = s}"
      using len by auto
    then show "count_list (zip edges_genes edges_genomes) (g, s) =
      card {p. p < length edges_genes \<and> edges_genes ! p = g \<and> edges_genomes ! p = s}"
      by (simp add: count_list_positions)
  qed
  have "\<forall>i<length ?gs. \<forall>j<length ?ss.
          rows adj ! i ! j =
            int (card {p. p < length edges_genes \<and> edges_genes ! p = ?gs ! i \<and>
                          edges_genomes ! p = ?ss ! j})"
    using adj(5) by (simp add: pos)
  then show "\<exists>adj genomes genes.
              build_copy_number_matrix edges_genes edges_genomes = Inr (adj, genomes, genes) \<and>
              genes = sorted_list_of_set (set edges_genes) \<and>
              sorted genes \<and> distinct genes \<and> set genes = set edges_genes \<and>
              genomes = sorted_list_of_set (set edges_genomes) \<and>
              sorted genomes \<and> distinct genomes \<and> set genomes = set edges_genomes \<and>
              wf_ndarray adj \<and> shape0 adj = length genes \<and> shape1 adj = length genomes \<and>
              (\<forall>i<length genes. \<forall>j<length genomes.
                 rows adj ! i ! j =
                   int (card {p. p < length edges_genes \<and> edges_genes ! p = genes ! i \<and>
                                 edges_genomes ! p = genomes ! j}))"
    using adj(1-4) unique_props(1-4)[of edges_genes] unique_props(1-4)[of edges_genomes]
    by (intro exI[of _ adj] exI[of _ ?ss] exI[of _ ?gs]) simp
next
  show "build_copy_number_matrix ([] :: 'a list) ([] :: 'b list) =
           Inr (\<lparr> shape0 = 0, shape1 = 0, rows = [] \<rparr>, [], [])"
    by (simp add: build_copy_number_matrix_def unique_inverse_def unique_def broadcast_add_def
        bincount_def reshape_def)
qed

lemma example_edges_matrix:
  "build_copy_number_matrix [2, 1, 2, 2 :: nat] [10, 10, 10, 20 :: nat] =
     Inr (\<lparr> shape0 = 2, shape1 = 2, rows = [[1, 0], [2, 1]] \<rparr>, [10, 20], [1, 2])"
  by code_simp

theorem build_copy_number_matrix_counts_witness:
  "length [2, 1, 2, 2 :: nat] = length [10, 10, 10, 20 :: nat] \<and>
   build_copy_number_matrix [2, 1, 2, 2 :: nat] [10, 10, 10, 20 :: nat] =
     Inr (\<lparr> shape0 = 2, shape1 = 2, rows = [[1, 0], [2, 1]] \<rparr>, [10, 20], [1, 2]) \<and>
   (\<exists>adj genomes genes.
      build_copy_number_matrix [2, 1, 2, 2 :: nat] [10, 10, 10, 20 :: nat] = Inr (adj, genomes, genes) \<and>
      sorted genes \<and> distinct genes \<and> set genes = set [2, 1, 2, 2 :: nat] \<and>
      sorted genomes \<and> distinct genomes \<and> set genomes = set [10, 10, 10, 20 :: nat] \<and>
      wf_ndarray adj \<and> shape0 adj = length genes \<and> shape1 adj = length genomes)"
proof -
  have len: "length [2, 1, 2, 2 :: nat] = length [10, 10, 10, 20 :: nat]" by simp
  from build_copy_number_matrix_counts[of "[2, 1, 2, 2 :: nat]" "[10, 10, 10, 20 :: nat]",
      THEN conjunct1, THEN mp, OF len]
  have "\<exists>adj genomes genes.
      build_copy_number_matrix [2, 1, 2, 2 :: nat] [10, 10, 10, 20 :: nat] = Inr (adj, genomes, genes) \<and>
      sorted genes \<and> distinct genes \<and> set genes = set [2, 1, 2, 2 :: nat] \<and>
      sorted genomes \<and> distinct genomes \<and> set genomes = set [10, 10, 10, 20 :: nat] \<and>
      wf_ndarray adj \<and> shape0 adj = length genes \<and> shape1 adj = length genomes"
    by blast
  with len example_edges_matrix show ?thesis by (intro conjI)
qed

end
